theory Spec2Isabelle
  imports Complex_Main "HOL-Library.Char_ord" "HOL-Library.List_Lexorder" "HOL-Library.Sublist"
begin

section \<open>Python values shared by the notebooks\<close>

text \<open>
  The notebooks are straight-line Python cells around calls into numpy, glob, json,
  subprocess and the sampler. Every exception a cell can raise is a value of
  \<open>py_error\<close>; a cell that can raise returns \<open>py_error + 'a\<close>.
\<close>

datatype py_error = IndexError | ValueError | TypeError | UnicodeError | IOError

text \<open>A list comprehension whose element expression can raise: the first exception wins.\<close>

fun comprehension :: "('a \<Rightarrow> py_error + 'b) \<Rightarrow> 'a list \<Rightarrow> py_error + 'b list" where
  "comprehension f [] = Inr []"
| "comprehension f (x # xs) =
     (case f x of
        Inl e \<Rightarrow> Inl e
      | Inr y \<Rightarrow> (case comprehension f xs of Inl e \<Rightarrow> Inl e | Inr ys \<Rightarrow> Inr (y # ys)))"

section \<open>Arrays read by np.loadtxt\<close>

text \<open>
  The array \<^verbatim>\<open>np.loadtxt\<close> returns has no axis (one number), one axis, or two (its
  rows, all of one length).
\<close>

datatype 'a ndarray = Arr0 'a | Arr1 "'a list" | Arr2 "'a list list"

text \<open>
  The array of a non-empty list of rows of one non-zero length, squeezed: one row of one
  field is an array of no axes, one row or one column is an array of one axis.
\<close>

fun squeeze_array :: "'a list list \<Rightarrow> 'a ndarray" where
  "squeeze_array [[x]] = Arr0 x"
| "squeeze_array [r] = Arr1 r"
| "squeeze_array rows =
     (if list_all (\<lambda>r. length r = 1) rows then Arr1 (concat rows) else Arr2 rows)"

text \<open>
  \<^verbatim>\<open>np.loadtxt(path)\<close> on a file of numbers, the file given as the fields of its lines:
  lines with no field are skipped, a file with no line left is the empty array of one
  axis, two lines that differ in their number of fields raise \<open>ValueError\<close>, and the
  axes of length one are squeezed out of the result (\<^verbatim>\<open>ndmin=0\<close>).
\<close>

definition loadtxt_rows :: "'a list list \<Rightarrow> py_error + 'a ndarray" where
  "loadtxt_rows file_rows =
     (let rows = filter (\<lambda>r. r \<noteq> []) file_rows
      in case rows of
           [] \<Rightarrow> Inr (Arr1 [])
         | first # _ \<Rightarrow>
             if list_all (\<lambda>r. length r = length first) rows
             then Inr (squeeze_array rows)
             else Inl ValueError)"

text \<open>\<^verbatim>\<open>chain.shape[0]\<close>: the length of the first axis; an array of no axes has none.\<close>

fun shape0 :: "'a ndarray \<Rightarrow> py_error + nat" where
  "shape0 (Arr0 x) = Inl IndexError"
| "shape0 (Arr1 xs) = Inr (length xs)"
| "shape0 (Arr2 rows) = Inr (length rows)"

text \<open>\<^verbatim>\<open>chain[burn:]\<close>: the entries of the first axis from index \<open>burn\<close> on.\<close>

fun rows_from :: "nat \<Rightarrow> 'a ndarray \<Rightarrow> py_error + 'a ndarray" where
  "rows_from burn (Arr0 x) = Inl IndexError"
| "rows_from burn (Arr1 xs) = Inr (Arr1 (drop burn xs))"
| "rows_from burn (Arr2 rows) = Inr (Arr2 (drop burn rows))"

section \<open>Burn-in of a loaded chain\<close>

text \<open>
  \<^verbatim>\<open>burn = int(0.25 * chain.shape[0])\<close> (single_pulsar_noise, stochastic_gwb_analysis,
  cw_exercises), on the array \<^verbatim>\<open>chain = np.loadtxt(...)\<close>. The product with the binary
  fraction 0.25 is exact for every length below \<open>2^53\<close>, which every array held in
  memory has, so it is the exact product here; \<open>int\<close> truncates, which on a
  non-negative number is the floor.
\<close>

definition burn_in :: "'a ndarray \<Rightarrow> py_error + nat" where
  "burn_in chain =
     (case shape0 chain of Inl e \<Rightarrow> Inl e | Inr n \<Rightarrow> Inr (nat \<lfloor>0.25 * real n\<rfloor>))"

text \<open>\<^verbatim>\<open>chain[burn:]\<close> for that index.\<close>

definition after_burn :: "'a ndarray \<Rightarrow> py_error + 'a ndarray" where
  "after_burn chain = (case burn_in chain of Inl e \<Rightarrow> Inl e | Inr burn \<Rightarrow> rows_from burn chain)"

text \<open>
  What the notebooks hand to a plot or a summary of the chain, in the order of the
  cells, with the rows it takes: all of them (\<^verbatim>\<open>chain[:, ...]\<close>, or \<^verbatim>\<open>chain\<close> itself)
  or those after the burn-in (\<^verbatim>\<open>chain[burn:, ...]\<close>).
  \<^item> stochastic_gwb_analysis: \<^verbatim>\<open>plt.plot(chain[:,-5])\<close>,
    \<^verbatim>\<open>plt.hist(chain[burn:,-5], ...)\<close>, \<^verbatim>\<open>np.percentile(chain[burn:, -5], q=95)\<close>;
  \<^item> single_pulsar_noise: \<^verbatim>\<open>plt.plot(chain[burn:, ind])\<close>,
    \<^verbatim>\<open>plt.hist(chain[burn:,ind], ...)\<close>,
    \<^verbatim>\<open>corner.corner(chain[burn:, [ind_redA, ind_redgam]], ...)\<close>,
    \<^verbatim>\<open>model_utils.PostProcessing(chain, pars)\<close> with its \<^verbatim>\<open>plot_trace()\<close>;
  \<^item> cw_exercises: \<^verbatim>\<open>hist(chain[burn:,params.index(name)], ...)\<close> in \<^verbatim>\<open>plot_param\<close>.
\<close>

datatype row_range = AllRows | FromBurn

datatype chain_use =
    TracePlot row_range
  | Histogram row_range
  | UpperLimit row_range
  | CornerPlot row_range
  | PostProcessing row_range

definition stochastic_gwb_uses :: "chain_use list" where
  "stochastic_gwb_uses = [TracePlot AllRows, Histogram FromBurn, UpperLimit FromBurn]"

definition single_pulsar_uses :: "chain_use list" where
  "single_pulsar_uses =
     [TracePlot FromBurn, Histogram FromBurn, CornerPlot FromBurn, PostProcessing AllRows]"

definition cw_exercises_uses :: "chain_use list" where
  "cw_exercises_uses = [Histogram FromBurn]"

fun rows_taken :: "chain_use \<Rightarrow> row_range" where
  "rows_taken (TracePlot r) = r"
| "rows_taken (Histogram r) = r"
| "rows_taken (UpperLimit r) = r"
| "rows_taken (CornerPlot r) = r"
| "rows_taken (PostProcessing r) = r"

fun is_trace_plot :: "chain_use \<Rightarrow> bool" where
  "is_trace_plot (TracePlot r) = True"
| "is_trace_plot u = False"

fun is_histogram_or_limit :: "chain_use \<Rightarrow> bool" where
  "is_histogram_or_limit (Histogram r) = True"
| "is_histogram_or_limit (UpperLimit r) = True"
| "is_histogram_or_limit u = False"

section \<open>Sky position of a fake pulsar\<close>

text \<open>
  The sphere point picking of \<^verbatim>\<open>make_fake_pulsar\<close> (cw_exercises), as a function of
  its two uniform draws \<open>u\<close> and \<open>v\<close>, over the reals:
  \<^verbatim>\<open>phi = 2*np.pi*u\<close>, \<^verbatim>\<open>theta = np.arccos(2*v-1) - np.pi/2\<close>.
\<close>

definition sky_phi :: "real \<Rightarrow> real" where
  "sky_phi u = 2 * pi * u"

definition sky_theta :: "real \<Rightarrow> real" where
  "sky_theta v = arccos (2 * v - 1) - pi / 2"

section \<open>Time span of the data set\<close>

text \<open>\<^verbatim>\<open>toas.min()\<close> and \<^verbatim>\<open>np.min\<close>: the minimum of an array; empty arrays raise.\<close>

fun np_min :: "real list \<Rightarrow> py_error + real" where
  "np_min [] = Inl ValueError"
| "np_min (x # xs) = Inr (fold min xs x)"

fun np_max :: "real list \<Rightarrow> py_error + real" where
  "np_max [] = Inl ValueError"
| "np_max (x # xs) = Inr (fold max xs x)"

text \<open>
  stochastic_gwb_analysis: every pulsar is its array of TOAs.
  \<^verbatim>\<open>
  tmin = [p.toas.min() for p in psrs]
  tmax = [p.toas.max() for p in psrs]
  Tspan = np.max(tmax) - np.min(tmin)
  \<close>
\<close>

definition Tspan :: "real list list \<Rightarrow> py_error + real" where
  "Tspan psrs =
     (case comprehension np_min psrs of
        Inl e \<Rightarrow> Inl e
      | Inr tmin \<Rightarrow>
          (case comprehension np_max psrs of
             Inl e \<Rightarrow> Inl e
           | Inr tmax \<Rightarrow>
               (case np_max tmax of
                  Inl e \<Rightarrow> Inl e
                | Inr hi \<Rightarrow>
                    (case np_min tmin of Inl e \<Rightarrow> Inl e | Inr lo \<Rightarrow> Inr (hi - lo)))))"

text \<open>
  single_pulsar_noise: one pulsar, \<open>tmin\<close> and \<open>tmax\<close> are scalars, of which
  \<^verbatim>\<open>np.max\<close> and \<^verbatim>\<open>np.min\<close> are the scalars themselves.
\<close>

definition Tspan_single :: "real list \<Rightarrow> py_error + real" where
  "Tspan_single toas =
     (case np_min toas of
        Inl e \<Rightarrow> Inl e
      | Inr tmin \<Rightarrow> (case np_max toas of Inl e \<Rightarrow> Inl e | Inr tmax \<Rightarrow> Inr (tmax - tmin)))"

section \<open>Column of a parameter in the chain\<close>

text \<open>
  \<^verbatim>\<open>list(pta.param_names).index(name)\<close>: the position of the first element equal to
  \<open>name\<close>; \<open>ValueError\<close> when there is none.
\<close>

fun py_index :: "'a list \<Rightarrow> 'a \<Rightarrow> py_error + nat" where
  "py_index [] x = Inl ValueError"
| "py_index (y # ys) x =
     (if y = x then Inr 0
      else (case py_index ys x of Inl e \<Rightarrow> Inl e | Inr i \<Rightarrow> Inr (Suc i)))"

text \<open>
  \<^verbatim>\<open>chain[burn:, ind]\<close> for a column index \<open>ind \<ge> 0\<close>: on an array of two axes, entry
  \<open>ind\<close> of every row from \<open>burn\<close> on, as an array of one axis, and \<open>IndexError\<close> when
  the rows have no such entry; on an array of fewer axes, \<open>IndexError\<close> (too many
  indices).
\<close>

definition column_from :: "nat \<Rightarrow> nat \<Rightarrow> 'a ndarray \<Rightarrow> py_error + 'a ndarray" where
  "column_from burn ind chain =
     (case chain of
        Arr2 rows \<Rightarrow>
          if list_all (\<lambda>row. ind < length row) rows
          then Inr (Arr1 (map (\<lambda>row. row ! ind) (drop burn rows)))
          else Inl IndexError
      | _ \<Rightarrow> Inl IndexError)"

text \<open>
  The chain file the sampler writes: every row is the sample of the model parameters, in
  the order of \<^verbatim>\<open>pta.param_names\<close>, followed by the fields the sampler appends
  (log-posterior, log-likelihood, acceptance rates).
\<close>

definition chain_rows :: "'a list list \<Rightarrow> 'a list list \<Rightarrow> 'a list list" where
  "chain_rows samples appended = map (\<lambda>(s, a). s @ a) (zip samples appended)"

text \<open>
  single_pulsar_noise, from the chain file to the samples that are plotted:
  \<^verbatim>\<open>
  chain = np.loadtxt(outdir + 'chain_1.txt')
  burn = int(0.25 * chain.shape[0])
  ind = list(pta.param_names).index(name)
  ... chain[burn:, ind] ...
  \<close>
\<close>

definition param_samples :: "'n list \<Rightarrow> 'n \<Rightarrow> 'a list list \<Rightarrow> py_error + 'a ndarray" where
  "param_samples param_names name file_rows =
     (case loadtxt_rows file_rows of
        Inl e \<Rightarrow> Inl e
      | Inr chain \<Rightarrow>
          (case burn_in chain of
             Inl e \<Rightarrow> Inl e
           | Inr burn \<Rightarrow>
               (case py_index param_names name of
                  Inl e \<Rightarrow> Inl e
                | Inr ind \<Rightarrow> column_from burn ind chain)))"

section \<open>Files of a directory\<close>

text \<open>
  \<^verbatim>\<open>glob.glob(dir + '/*' + ext)\<close> over the listing of the directory (its file names, in
  the order the operating system gives them): the star matches any name that ends with
  \<open>ext\<close>, hidden names (starting with a dot) apart, and every match comes back with the
  directory in front.
\<close>

definition star_match :: "string \<Rightarrow> string \<Rightarrow> bool" where
  "star_match ext n = (suffix ext n \<and> \<not> prefix ''.'' n)"

definition glob_star :: "string \<Rightarrow> string \<Rightarrow> string list \<Rightarrow> string list" where
  "glob_star dir ext listing = map (\<lambda>n. dir @ n) (filter (star_match ext) listing)"

section \<open>Noise dictionaries\<close>

text \<open>
  stochastic_gwb_analysis:
  \<^verbatim>\<open>noisefiles = sorted(glob.glob('./dataset1/noise/*.json'))\<close>.
  Python compares strings by code point, prefix first, which is the lexicographic order
  of \<open>string\<close>.
\<close>

definition noisefiles :: "string list \<Rightarrow> string list" where
  "noisefiles listing = sort (glob_star ''./dataset1/noise/'' ''.json'' listing)"

text \<open>
  \<^verbatim>\<open>
  params = {}
  for nf in noisefiles:
      with open(nf, 'r') as fin:
          params.update(json.load(fin))
  \<close>
  \<open>json\<close> gives, for the path of a readable JSON file, the dictionary \<^verbatim>\<open>json.load\<close>
  returns; a path it does not know cannot be opened. \<^verbatim>\<open>params.update(d)\<close> is
  \<open>params ++ d\<close>.
\<close>

fun update_all ::
  "(string \<rightharpoonup> (string \<rightharpoonup> 'v)) \<Rightarrow> string list \<Rightarrow> (string \<rightharpoonup> 'v) \<Rightarrow> py_error + (string \<rightharpoonup> 'v)" where
  "update_all json [] params = Inr params"
| "update_all json (nf # rest) params =
     (case json nf of
        None \<Rightarrow> Inl IOError
      | Some d \<Rightarrow> update_all json rest (params ++ d))"

definition load_noise ::
  "string list \<Rightarrow> (string \<rightharpoonup> (string \<rightharpoonup> 'v)) \<Rightarrow> py_error + (string \<rightharpoonup> 'v)" where
  "load_noise listing json = update_all json (noisefiles listing) Map.empty"

section \<open>Byte strings\<close>

text \<open>
  \<^verbatim>\<open>s.split(sep)\<close> for a separator of one byte: the pieces between the occurrences of
  \<open>sep\<close>, one more than there are occurrences (never an empty list).
\<close>

fun split_on :: "'a \<Rightarrow> 'a list \<Rightarrow> 'a list list" where
  "split_on c [] = [[]]"
| "split_on c (x # xs) =
     (if x = c then [] # split_on c xs
      else (case split_on c xs of [] \<Rightarrow> [[x]] | w # ws \<Rightarrow> (x # w) # ws))"

text \<open>\<^verbatim>\<open>sub in s\<close>: \<open>sub\<close> occurs in \<open>s\<close> as a contiguous run.\<close>

fun contains :: "'a list \<Rightarrow> 'a list \<Rightarrow> bool" where
  "contains sub [] = (sub = [])"
| "contains sub (x # xs) = (prefix sub (x # xs) \<or> contains sub xs)"

text \<open>
  \<^verbatim>\<open>s.strip()\<close> on bytes: leading and trailing ASCII whitespace (space, tab, newline,
  carriage return, vertical tab, form feed) removed.
\<close>

definition is_space :: "char \<Rightarrow> bool" where
  "is_space c = (c \<in> {CHR '' '', CHR 0x09, CHR 0x0A, CHR 0x0D, CHR 0x0B, CHR 0x0C})"

definition py_strip :: "string \<Rightarrow> string" where
  "py_strip s = rev (dropWhile is_space (rev (dropWhile is_space s)))"

text \<open>\<^verbatim>\<open>xs[i]\<close> for an index \<open>i \<ge> 0\<close>.\<close>

definition item :: "'a list \<Rightarrow> nat \<Rightarrow> py_error + 'a" where
  "item xs i = (if i < length xs then Inr (xs ! i) else Inl IndexError)"

section \<open>Reading the output of readfile\<close>

text \<open>
  Faking_it_at_the_command_line. What \<^verbatim>\<open>subprocess.Popen(['readfile', filename],
  stdout=PIPE, stderr=PIPE)\<close> has to give once the process has ended: the bytes of its two
  streams, which \<^verbatim>\<open>p.communicate()\<close> returns as a pair.
\<close>

record process =
  stdout :: string
  stderr :: string

definition communicate :: "process \<Rightarrow> string \<times> string" where
  "communicate p = (stdout p, stderr p)"

text \<open>
  \<^verbatim>\<open>
  for res in result:
      if b"Central freq" in res:
          freq = res.split(b"=")[1].strip()
          print("Frequency=%0.1f" % float(freq))
  \<close>
  The loop returns the lines printed so far and the exception that ended it, if any.
  Python's \<^verbatim>\<open>float\<close> and the rendering \<^verbatim>\<open>"%0.1f" %\<close> are the interpreter's: \<open>to_float\<close>
  gives the float a byte string denotes (\<open>None\<close> where \<^verbatim>\<open>float\<close> raises \<open>ValueError\<close>)
  and \<open>fmt\<close> renders a float.
\<close>

fun readfile_loop ::
  "(string \<Rightarrow> 'f option) \<Rightarrow> ('f \<Rightarrow> string) \<Rightarrow> string list \<Rightarrow> string list
     \<Rightarrow> string list \<times> py_error option" where
  "readfile_loop to_float fmt [] printed = (printed, None)"
| "readfile_loop to_float fmt (res # rest) printed =
     (if contains ''Central freq'' res then
        (case item (split_on CHR ''='' res) 1 of
           Inl e \<Rightarrow> (printed, Some e)
         | Inr field \<Rightarrow>
             (case to_float (py_strip field) of
                None \<Rightarrow> (printed, Some ValueError)
              | Some freq \<Rightarrow>
                  readfile_loop to_float fmt rest (printed @ [''Frequency='' @ fmt freq])))
      else readfile_loop to_float fmt rest printed)"

text \<open>
  \<^verbatim>\<open>
  out, err = p.communicate()
  result = out.split(b"\n")
  for res in result: ...
  \<close>
\<close>

definition readfile_cell ::
  "(string \<Rightarrow> 'f option) \<Rightarrow> ('f \<Rightarrow> string) \<Rightarrow> process \<Rightarrow> string list \<times> py_error option" where
  "readfile_cell to_float fmt p =
     (let (out, err) = communicate p;
          result = split_on (CHR 0x0A) out
      in readfile_loop to_float fmt result [])"

text \<open>
  The text of a line between its first \<open>=\<close> and its second \<open>=\<close> (or the end of the line
  when it has one \<open>=\<close> only).
\<close>

definition after_first_eq :: "string \<Rightarrow> string" where
  "after_first_eq l = takeWhile (\<lambda>c. c \<noteq> CHR ''='') (tl (dropWhile (\<lambda>c. c \<noteq> CHR ''='') l))"

section \<open>The notebooks as sequential programs\<close>

text \<open>
  What a notebook does to the chain files, statement by statement:
  \<^item> \<open>NewSampler d\<close>: \<^verbatim>\<open>sampler = ptmcmc(..., outDir=d, resume=False)\<close> or
    \<^verbatim>\<open>sampler = model_utils.setup_sampler(pta, outdir=d, resume=False)\<close>;
  \<^item> \<open>Sample\<close>: \<^verbatim>\<open>sampler.sample(x0, N, ...)\<close>;
  \<^item> \<open>LoadTxt p\<close>: \<^verbatim>\<open>np.loadtxt(p)\<close>;
  \<^item> \<open>SaveTxt p\<close>: \<^verbatim>\<open>np.savetxt(p, ...)\<close>.
  A notebook is the list of its code cells, a cell the list of these statements in it
  (every other statement left out), and its program the cells from top to bottom.
\<close>

datatype stmt = NewSampler string | Sample | LoadTxt string | SaveTxt string

type_synonym notebook = "stmt list list"

definition program :: "notebook \<Rightarrow> stmt list" where
  "program nb = concat nb"

text \<open>
  stochastic_gwb_analysis: 24 code cells; the sampler is made in cell 18, run in cell 19
  and the chain is loaded in cell 20.
\<close>

definition stochastic_gwb_analysis :: notebook where
  "stochastic_gwb_analysis =
     replicate 17 [] @
     [[NewSampler ''./chains/dataset1_crn/''],
      [Sample],
      [LoadTxt ''./chains/dataset1_crn/chain_1.txt'']] @
     replicate 4 []"

text \<open>
  single_pulsar_noise: 22 code cells, with
  \<^verbatim>\<open>outdir = './chains/noise_run_{}/'.format(str(psr.name))\<close> for the name of the pulsar
  that was loaded. Cells 10 to 12 make a sampler, run it and load the chain; cells 19
  to 21 do so again for the second model.
\<close>

definition single_pulsar_noise :: "string \<Rightarrow> notebook" where
  "single_pulsar_noise psr_name =
     (let outdir = ''./chains/noise_run_'' @ psr_name @ ''/'' in
      replicate 9 [] @
      [[NewSampler outdir],
       [Sample],
       [LoadTxt (outdir @ ''chain_1.txt'')]] @
      replicate 6 [] @
      [[NewSampler outdir],
       [Sample],
       [LoadTxt (outdir @ ''/chain_1.txt''), LoadTxt (outdir @ ''/pars.txt'')],
       []])"

text \<open>
  cw_exercises: 40 code cells, with \<^verbatim>\<open>chaindir = 'chains/'\<close>. Cell 20 makes the sampler
  and writes the parameter names, cell 22 runs the sampler, cell 23 loads the chain and
  the names.
\<close>

definition cw_exercises :: notebook where
  "cw_exercises =
     (let chaindir = ''chains/'' in
      replicate 19 [] @
      [[NewSampler chaindir, SaveTxt (chaindir @ ''/params.txt'')],
       [],
       [Sample],
       [LoadTxt (chaindir @ ''/chain_1.txt''), LoadTxt (chaindir @ ''/params.txt'')]] @
      replicate 17 [])"

text \<open>
  Faking_it_at_the_command_line (10 code cells) and the notebook on importing modules
  (unnamed/part_000, 18 code cells) have no sampler and load no file.
\<close>

definition faking_it_at_the_command_line :: notebook where
  "faking_it_at_the_command_line = replicate 10 []"

definition importing_modules :: notebook where
  "importing_modules = replicate 18 []"

text \<open>The sampler the name \<^verbatim>\<open>sampler\<close> is bound to after a run of statements.\<close>

definition bind_sampler :: "stmt \<Rightarrow> string option \<Rightarrow> string option" where
  "bind_sampler st s = (case st of NewSampler d \<Rightarrow> Some d | _ \<Rightarrow> s)"

definition sampler_after :: "stmt list \<Rightarrow> string option" where
  "sampler_after pre = fold bind_sampler pre None"

text \<open>
  The sampler writes its chain to \<^verbatim>\<open>outDir + '/chain_1.txt'\<close>. Two paths name the same
  file when they differ in repeated slashes only.
\<close>

definition chain_file_of :: "string \<Rightarrow> string" where
  "chain_file_of d = d @ ''/chain_1.txt''"

fun squeeze :: "string \<Rightarrow> string" where
  "squeeze (a # b # r) =
     (if a = CHR ''/'' \<and> b = CHR ''/'' then squeeze (b # r) else a # squeeze (b # r))"
| "squeeze r = r"

definition same_file :: "string \<Rightarrow> string \<Rightarrow> bool" where
  "same_file a b = (squeeze a = squeeze b)"

definition is_chain_file :: "string \<Rightarrow> bool" where
  "is_chain_file p = (rev (takeWhile (\<lambda>c. c \<noteq> CHR ''/'') (rev p)) = ''chain_1.txt'')"

text \<open>
  Every load of a chain file is at a position after a \<^verbatim>\<open>sampler.sample\<close> call of a
  sampler that writes that file.
\<close>

definition read_after_sample :: "stmt list \<Rightarrow> bool" where
  "read_after_sample prog =
     (\<forall>i<length prog.
        case prog ! i of
          LoadTxt p \<Rightarrow>
            is_chain_file p \<longrightarrow>
              (\<exists>j<i. prog ! j = Sample \<and>
                 (case sampler_after (take j prog) of
                    None \<Rightarrow> False
                  | Some d \<Rightarrow> same_file (chain_file_of d) p))
        | _ \<Rightarrow> True)"

text \<open>
  One pass over the program that decides it: \<open>s\<close> is the sampler bound so far, \<open>w\<close> the
  chain files sampled so far.
\<close>

fun scan :: "stmt list \<Rightarrow> string option \<Rightarrow> string list \<Rightarrow> bool" where
  "scan [] s w = True"
| "scan (NewSampler d # r) s w = scan r (Some d) w"
| "scan (Sample # r) s w = scan r s (case s of None \<Rightarrow> w | Some d \<Rightarrow> chain_file_of d # w)"
| "scan (LoadTxt p # r) s w = ((is_chain_file p \<longrightarrow> (\<exists>f \<in> set w. same_file f p)) \<and> scan r s w)"
| "scan (SaveTxt p # r) s w = scan r s w"

section \<open>Parameter names on disk\<close>

text \<open>
  cw_exercises writes the parameter names with
  \<^verbatim>\<open>np.savetxt(filename, list(map(str, pta.param_names)), fmt='%s')\<close> and reads them back
  with \<^verbatim>\<open>params = list(np.loadtxt(chaindir + '/params.txt', dtype='str'))\<close>. What numpy
  does in these two calls, with every other argument at its default:

  \<^item> an element of a string array is stored padded with NUL characters, so it is read
    without the NUL characters at its end (\<open>np_str\<close>);
  \<^item> \<^verbatim>\<open>savetxt\<close> turns the list into an array and writes every element, rendered with
    \<^verbatim>\<open>%s\<close>, on a line of its own;
  \<^item> \<^verbatim>\<open>loadtxt\<close> reads the file line by line, cuts every line at the first \<open>#\<close>
    (\<^verbatim>\<open>comments='#'\<close>), splits it at runs of whitespace, skips the lines left with no
    field, raises \<open>ValueError\<close> when two lines differ in their number of fields, and
    squeezes the axes of length one out of the result (\<^verbatim>\<open>ndmin=0\<close>);
  \<^item> \<^verbatim>\<open>list\<close> iterates over the first axis of the array, which an array of no axes
    does not have.
\<close>

definition np_str :: "string \<Rightarrow> string" where
  "np_str s = rev (dropWhile (\<lambda>c. c = CHR 0x00) (rev s))"

definition savetxt :: "string list \<Rightarrow> string" where
  "savetxt X = concat (map (\<lambda>s. np_str s @ [CHR 0x0A]) X)"

text \<open>
  The whitespace of a text string, among the characters of one byte: the six of ASCII,
  and the separators a line decoded to text is split at as well.
\<close>

definition is_text_space :: "char \<Rightarrow> bool" where
  "is_text_space c =
     (c \<in> {CHR 0x09, CHR 0x0A, CHR 0x0B, CHR 0x0C, CHR 0x0D, CHR 0x1C, CHR 0x1D, CHR 0x1E,
            CHR 0x1F, CHR '' '', CHR 0x85, CHR 0xA0})"

text \<open>\<^verbatim>\<open>line.split()\<close>: the maximal runs of characters that are not whitespace.\<close>

definition py_words :: "string \<Rightarrow> string list" where
  "py_words s =
     filter (\<lambda>w. w \<noteq> [])
       (split_on CHR '' '' (map (\<lambda>c. if is_text_space c then CHR '' '' else c) s))"

text \<open>
  The lines of a file opened as text: a carriage return ends a line as a line feed does
  (the empty line this puts between the two characters of a \<open>CR LF\<close> is one of those
  \<^verbatim>\<open>loadtxt\<close> skips).
\<close>

definition text_lines :: "string \<Rightarrow> string list" where
  "text_lines content =
     split_on (CHR 0x0A) (map (\<lambda>c. if c = CHR 0x0D then CHR 0x0A else c) content)"

definition loadtxt :: "string \<Rightarrow> py_error + string ndarray" where
  "loadtxt content =
     (let rows = filter (\<lambda>r. r \<noteq> [])
                   (map (\<lambda>l. py_words (takeWhile (\<lambda>c. c \<noteq> CHR ''#'') l)) (text_lines content))
      in case rows of
           [] \<Rightarrow> Inr (Arr1 [])
         | first # _ \<Rightarrow>
             if list_all (\<lambda>r. length r = length first) rows
             then Inr (squeeze_array (map (map np_str) rows))
             else Inl ValueError)"

text \<open>The elements \<^verbatim>\<open>list\<close> gives: strings for an array of one axis, rows for one of two.\<close>

datatype element = Str string | Row "string list"

fun py_list :: "string ndarray \<Rightarrow> py_error + element list" where
  "py_list (Arr0 x) = Inl TypeError"
| "py_list (Arr1 xs) = Inr (map Str xs)"
| "py_list (Arr2 rows) = Inr (map Row rows)"

text \<open>The names written by the one cell and read back by the other.\<close>

definition params_round_trip :: "string list \<Rightarrow> py_error + element list" where
  "params_round_trip param_names =
     (case loadtxt (savetxt param_names) of Inl e \<Rightarrow> Inl e | Inr a \<Rightarrow> py_list a)"

section \<open>Timing files of the pulsars\<close>

text \<open>
  stochastic_gwb_analysis, with \<^verbatim>\<open>datadir = './dataset1/'\<close>:
  \<^verbatim>\<open>
  parfiles = sorted(glob.glob(datadir + '/*.par'))
  timfiles = sorted(glob.glob(datadir + '/*.tim'))
  parfiles = [x.encode('ascii') for x in parfiles
              if x.split('/')[-1].split('.')[0] in psrlist]
  timfiles = [x.encode('ascii') for x in timfiles
              if x.split('/')[-1].split('.')[0] in psrlist]
  \<close>
  \<open>psr_key\<close> is the part of a path the filter looks up in \<open>psrlist\<close>: the file name up
  to its first dot (\<open>split_on\<close> never gives an empty list, so the last and the first
  piece exist). \<^verbatim>\<open>x.encode('ascii')\<close> gives \<open>x\<close> back, or raises on a character beyond
  ASCII.
\<close>

definition psr_key :: "string \<Rightarrow> string" where
  "psr_key x = hd (split_on CHR ''.'' (last (split_on CHR ''/'' x)))"

definition is_ascii :: "string \<Rightarrow> bool" where
  "is_ascii x = list_all (\<lambda>c. (of_char c :: nat) < 128) x"

definition encode_ascii :: "string \<Rightarrow> py_error + string" where
  "encode_ascii x = (if is_ascii x then Inr x else Inl UnicodeError)"

definition select_psrs :: "string list \<Rightarrow> string list \<Rightarrow> py_error + string list" where
  "select_psrs psrlist files =
     comprehension encode_ascii (filter (\<lambda>x. psr_key x \<in> set psrlist) files)"

definition parfiles :: "string list \<Rightarrow> string list \<Rightarrow> py_error + string list" where
  "parfiles psrlist listing = select_psrs psrlist (sort (glob_star ''./dataset1/'' ''.par'' listing))"

definition timfiles :: "string list \<Rightarrow> string list \<Rightarrow> py_error + string list" where
  "timfiles psrlist listing = select_psrs psrlist (sort (glob_star ''./dataset1/'' ''.tim'' listing))"

text \<open>
  \<^verbatim>\<open>for p, t in zip(parfiles, timfiles): psr = Pulsar(p, t, ...)\<close>: the pairs of files the
  constructor is given.
\<close>

definition pulsar_inputs :: "string list \<Rightarrow> string list \<Rightarrow> py_error + (string \<times> string) list" where
  "pulsar_inputs psrlist listing =
     (case parfiles psrlist listing of
        Inl e \<Rightarrow> Inl e
      | Inr ps \<Rightarrow> (case timfiles psrlist listing of Inl e \<Rightarrow> Inl e | Inr ts \<Rightarrow> Inr (zip ps ts)))"

section \<open>Properties: burn-in\<close>

lemma burn_value: "nat \<lfloor>0.25 * real n\<rfloor> = n div 4"
proof -
  have "\<lfloor>0.25 * real n\<rfloor> = \<lfloor>real n / real 4\<rfloor>" by simp
  also have "\<dots> = int (n div 4)" by (simp only: floor_divide_of_nat_eq)
  finally show ?thesis by simp
qed

lemma length_concat_ones: "\<forall>r \<in> set rows. length r = 1 \<Longrightarrow> length (concat rows) = length rows"
  by (induction rows) simp_all

lemma concat_drop_ones:
  "\<forall>r \<in> set rows. length r = 1 \<Longrightarrow> concat (drop b rows) = drop b (concat rows)"
proof (induction rows arbitrary: b)
  case Nil
  then show ?case by simp
next
  case (Cons r rows)
  then show ?case by (cases b) simp_all
qed

lemma squeeze_matrix:
  assumes "2 \<le> length rows" and "\<forall>row \<in> set rows. length row = c"
  shows "squeeze_array rows = (if c = 1 then Arr1 (concat rows) else Arr2 rows)"
proof -
  from assms(1) obtain r1 r2 rest where rows: "rows = r1 # r2 # rest"
    by (cases rows; cases "tl rows") auto
  have "list_all (\<lambda>r. length r = 1) rows = (c = 1)"
    using assms(2) by (auto simp: list_all_iff rows)
  then show ?thesis by (simp add: rows)
qed

lemma loadtxt_matrix:
  assumes "2 \<le> length rows" and "0 < c" and "\<forall>row \<in> set rows. length row = c"
  shows "loadtxt_rows rows = Inr (if c = 1 then Arr1 (concat rows) else Arr2 rows)"
proof -
  from assms(1) obtain r1 r2 rest where rows: "rows = r1 # r2 # rest"
    by (cases rows; cases "tl rows") auto
  have keep: "filter (\<lambda>r. r \<noteq> []) rows = rows"
    using assms(2,3) by (intro filter_True) auto
  have same: "list_all (\<lambda>r. length r = length r1) rows"
    using assms(3) by (auto simp: list_all_iff rows)
  have "loadtxt_rows rows = Inr (squeeze_array rows)"
    unfolding loadtxt_rows_def keep Let_def using same by (simp add: rows)
  then show ?thesis by (simp only: squeeze_matrix[OF assms(1,3)])
qed

text \<open>
  Claim C8, as amended. For every chain file with \<open>r \<ge> 2\<close> rows (each of the same
  non-zero number of fields), the loaded chain has \<^verbatim>\<open>chain.shape[0] = r\<close>, the burn-in
  index \<^verbatim>\<open>int(0.25 * chain.shape[0])\<close> is \<open>\<lfloor>r/4\<rfloor>\<close> and lies in \<open>[0, r)\<close>, so the slice
  \<^verbatim>\<open>chain[burn:]\<close>, which every histogram and the 95% upper-limit computation take, is a
  non-empty array: the array of the last \<open>r - \<lfloor>r/4\<rfloor>\<close> samples.
\<close>

theorem burn_in_slice:
  assumes "2 \<le> length rows" and "0 < c" and "\<forall>row \<in> set rows. length row = c"
  shows "\<exists>chain slice.
           loadtxt_rows rows = Inr chain
         \<and> shape0 chain = Inr (length rows)
         \<and> burn_in chain = Inr (length rows div 4)
         \<and> length rows div 4 < length rows
         \<and> after_burn chain = Inr slice
         \<and> loadtxt_rows (rev (take (length rows - length rows div 4) (rev rows))) = Inr slice
         \<and> shape0 slice = Inr (length rows - length rows div 4)
         \<and> 0 < length rows - length rows div 4
         \<and> list_all (\<lambda>u. rows_taken u = FromBurn)
              (filter is_histogram_or_limit
                 (stochastic_gwb_uses @ single_pulsar_uses @ cw_exercises_uses))"
proof -
  let ?r = "length rows"
  let ?b = "?r div 4"
  let ?chain = "if c = 1 then Arr1 (concat rows) else Arr2 rows"
  let ?last = "drop ?b rows"
  let ?slice = "if c = 1 then Arr1 (concat ?last) else Arr2 ?last"
  have load: "loadtxt_rows rows = Inr ?chain" by (rule loadtxt_matrix[OF assms])
  have ones: "c = 1 \<Longrightarrow> \<forall>r \<in> set rows. length r = 1" using assms(3) by simp
  have shape: "shape0 ?chain = Inr ?r" using ones by (simp add: length_concat_ones)
  have burn: "burn_in ?chain = Inr ?b" by (simp only: burn_in_def shape sum.case burn_value)
  have lt: "?b < ?r" using assms(1) by simp
  have slice: "after_burn ?chain = Inr ?slice"
    unfolding after_burn_def burn using ones by (simp add: concat_drop_ones)
  have len: "2 \<le> length ?last" using assms(1) by simp
  have same: "\<forall>row \<in> set ?last. length row = c" using assms(3) by (auto dest: in_set_dropD)
  have last: "rev (take (?r - ?b) (rev rows)) = ?last" by (simp add: take_rev)
  have reload: "loadtxt_rows (rev (take (?r - ?b) (rev rows))) = Inr ?slice"
    unfolding last by (rule loadtxt_matrix[OF len assms(2) same])
  have ones': "c = 1 \<Longrightarrow> \<forall>r \<in> set ?last. length r = 1" using same by simp
  have shape': "shape0 ?slice = Inr (?r - ?b)" using ones' by (simp add: length_concat_ones)
  have pos: "0 < ?r - ?b" using lt by simp
  have uses: "list_all (\<lambda>u. rows_taken u = FromBurn)
              (filter is_histogram_or_limit
                 (stochastic_gwb_uses @ single_pulsar_uses @ cw_exercises_uses))"
    by (simp add: stochastic_gwb_uses_def single_pulsar_uses_def cw_exercises_uses_def)
  from load shape burn lt slice reload shape' pos uses show ?thesis by blast
qed

theorem burn_in_slice_witness:
  "loadtxt_rows [[1, 10], [2, 20], [3, 30], [4, 40], [5, 50 :: int]]
     = Inr (Arr2 [[1, 10], [2, 20], [3, 30], [4, 40], [5, 50]])
   \<and> burn_in (Arr2 [[1, 10], [2, 20], [3, 30], [4, 40], [5, 50 :: int]]) = Inr 1
   \<and> after_burn (Arr2 [[1, 10], [2, 20], [3, 30], [4, 40], [5, 50 :: int]])
     = Inr (Arr2 [[2, 20], [3, 30], [4, 40], [5, 50]])"
  using burn_in_slice [of "[[1, 10], [2, 20], [3, 30], [4, 40], [5, 50 :: int]]" 2]
  by (simp add: loadtxt_rows_def burn_in_def after_burn_def)

text \<open>
  Claim C8 as stated fails at \<open>r = 1\<close>: a chain file of one row of eight fields is loaded
  as an array of one axis, so \<^verbatim>\<open>chain.shape[0]\<close> is 8, the burn-in index is 2 and not
  \<open>\<lfloor>1/4\<rfloor> = 0\<close>, and \<^verbatim>\<open>chain[burn:]\<close> is six fields of the one sample. And not every
  trace plot takes the slice: the one of stochastic_gwb_analysis plots all rows.
\<close>

theorem burn_in_one_row:
  "loadtxt_rows [[1, 2, 3, 4, 5, 6, 7, 8 :: int]] = Inr (Arr1 [1, 2, 3, 4, 5, 6, 7, 8])
   \<and> burn_in (Arr1 [1, 2, 3, 4, 5, 6, 7, 8 :: int]) = Inr 2
   \<and> after_burn (Arr1 [1, 2, 3, 4, 5, 6, 7, 8 :: int]) = Inr (Arr1 [3, 4, 5, 6, 7, 8])
   \<and> \<not> list_all (\<lambda>u. rows_taken u = FromBurn) (filter is_trace_plot stochastic_gwb_uses)"
  by (simp add: loadtxt_rows_def burn_in_def after_burn_def stochastic_gwb_uses_def)

section \<open>Properties: sky position\<close>

text \<open>
  Claim C9. For uniform draws \<open>u\<close> and \<open>v\<close> in \<open>[0, 1]\<close>, the longitude
  \<open>phi = 2 pi u\<close> lies in \<open>[0, 2 pi]\<close> and the latitude
  \<open>theta = arccos (2 v - 1) - pi / 2\<close> lies in \<open>[- pi / 2, pi / 2]\<close>.
\<close>

theorem sky_position_in_range:
  assumes "0 \<le> u" "u \<le> 1" "0 \<le> v" "v \<le> 1"
  shows "0 \<le> sky_phi u \<and> sky_phi u \<le> 2 * pi \<and> - (pi / 2) \<le> sky_theta v \<and> sky_theta v \<le> pi / 2"
proof -
  have a: "-1 \<le> 2 * v - 1" "2 * v - 1 \<le> 1" using assms by simp_all
  have "0 \<le> arccos (2 * v - 1)" "arccos (2 * v - 1) \<le> pi"
    using a by (simp_all add: arccos_lbound arccos_ubound)
  moreover have "0 \<le> 2 * pi * u" using assms by simp
  moreover have "2 * pi * u \<le> 2 * pi * 1" using assms by (intro mult_left_mono) simp_all
  ultimately show ?thesis by (simp add: sky_phi_def sky_theta_def)
qed

theorem sky_position_in_range_witness:
  "0 \<le> sky_phi 1 \<and> sky_phi 1 \<le> 2 * pi \<and> - (pi / 2) \<le> sky_theta 0 \<and> sky_theta 0 \<le> pi / 2"
  using sky_position_in_range [of 1 0] by simp

section \<open>Properties: time span\<close>

lemma np_min_Min: "p \<noteq> [] \<Longrightarrow> np_min p = Inr (Min (set p))"
  by (cases p) (simp_all add: Min.set_eq_fold [symmetric])

lemma np_max_Max: "p \<noteq> [] \<Longrightarrow> np_max p = Inr (Max (set p))"
  by (cases p) (simp_all add: Max.set_eq_fold [symmetric])

lemma comprehension_total:
  "(\<And>x. x \<in> set xs \<Longrightarrow> f x = Inr (g x)) \<Longrightarrow> comprehension f xs = Inr (map g xs)"
  by (induction xs) simp_all

lemma Min_of_Mins:
  assumes "psrs \<noteq> []" and "\<And>p. p \<in> set psrs \<Longrightarrow> p \<noteq> []"
  shows "Min (set (map (\<lambda>p. Min (set p)) psrs)) = Min (set (concat psrs))"
proof (rule antisym)
  have ne: "set (concat psrs) \<noteq> {}" using assms by (cases psrs) auto
  have ne2: "set (map (\<lambda>p. Min (set p)) psrs) \<noteq> {}" using assms by simp
  show "Min (set (map (\<lambda>p. Min (set p)) psrs)) \<le> Min (set (concat psrs))"
  proof -
    have "Min (set (concat psrs)) \<in> set (concat psrs)" using ne by (intro Min_in) simp_all
    then obtain p where p: "p \<in> set psrs" "Min (set (concat psrs)) \<in> set p" by auto
    have "Min (set (map (\<lambda>p. Min (set p)) psrs)) \<le> Min (set p)"
      using p(1) by (intro Min_le) auto
    also have "\<dots> \<le> Min (set (concat psrs))" using p(2) by (intro Min_le) simp_all
    finally show ?thesis .
  qed
  show "Min (set (concat psrs)) \<le> Min (set (map (\<lambda>p. Min (set p)) psrs))"
  proof -
    have "Min (set (map (\<lambda>p. Min (set p)) psrs)) \<in> set (map (\<lambda>p. Min (set p)) psrs)"
      using ne2 by (intro Min_in) simp_all
    then obtain p where p: "p \<in> set psrs" "Min (set (map (\<lambda>p. Min (set p)) psrs)) = Min (set p)"
      by auto
    have "Min (set p) \<in> set p" using assms(2)[OF p(1)] by (intro Min_in) simp_all
    then have "Min (set p) \<in> set (concat psrs)" using p(1) by auto
    then have "Min (set (concat psrs)) \<le> Min (set p)" by (intro Min_le) simp_all
    then show ?thesis using p(2) by simp
  qed
qed

lemma Max_of_Maxs:
  assumes "psrs \<noteq> []" and "\<And>p. p \<in> set psrs \<Longrightarrow> p \<noteq> []"
  shows "Max (set (map (\<lambda>p. Max (set p)) psrs)) = Max (set (concat psrs))"
proof (rule antisym)
  have ne: "set (concat psrs) \<noteq> {}" using assms by (cases psrs) auto
  have ne2: "set (map (\<lambda>p. Max (set p)) psrs) \<noteq> {}" using assms by simp
  show "Max (set (concat psrs)) \<le> Max (set (map (\<lambda>p. Max (set p)) psrs))"
  proof -
    have "Max (set (concat psrs)) \<in> set (concat psrs)" using ne by (intro Max_in) simp_all
    then obtain p where p: "p \<in> set psrs" "Max (set (concat psrs)) \<in> set p" by auto
    have "Max (set (concat psrs)) \<le> Max (set p)" using p(2) by (intro Max_ge) simp_all
    also have "\<dots> \<le> Max (set (map (\<lambda>p. Max (set p)) psrs))"
      using p(1) by (intro Max_ge) auto
    finally show ?thesis .
  qed
  show "Max (set (map (\<lambda>p. Max (set p)) psrs)) \<le> Max (set (concat psrs))"
  proof -
    have "Max (set (map (\<lambda>p. Max (set p)) psrs)) \<in> set (map (\<lambda>p. Max (set p)) psrs)"
      using ne2 by (intro Max_in) simp_all
    then obtain p where p: "p \<in> set psrs" "Max (set (map (\<lambda>p. Max (set p)) psrs)) = Max (set p)"
      by auto
    have "Max (set p) \<in> set p" using assms(2)[OF p(1)] by (intro Max_in) simp_all
    then have "Max (set p) \<in> set (concat psrs)" using p(1) by auto
    then have "Max (set p) \<le> Max (set (concat psrs))" by (intro Max_ge) simp_all
    then show ?thesis using p(2) by simp
  qed
qed

text \<open>
  Claim C10. For a non-empty collection of pulsars, each with a non-empty TOA array,
  \<open>Tspan\<close> is the largest TOA of all pulsars minus the smallest TOA of all pulsars; it
  is non-negative and at least the span of every single pulsar (which is what the
  single-pulsar notebook computes).
\<close>

theorem Tspan_global:
  assumes "psrs \<noteq> []" and "\<forall>p \<in> set psrs. p \<noteq> []"
  shows "Tspan psrs = Inr (Max (set (concat psrs)) - Min (set (concat psrs)))
       \<and> 0 \<le> Max (set (concat psrs)) - Min (set (concat psrs))
       \<and> (\<forall>p \<in> set psrs. Tspan_single p = Inr (Max (set p) - Min (set p))
              \<and> Max (set p) - Min (set p) \<le> Max (set (concat psrs)) - Min (set (concat psrs)))"
proof -
  have ne: "\<And>p. p \<in> set psrs \<Longrightarrow> p \<noteq> []" using assms(2) by blast
  have cne: "set (concat psrs) \<noteq> {}" using assms by (cases psrs) auto
  have tmin: "comprehension np_min psrs = Inr (map (\<lambda>p. Min (set p)) psrs)"
    by (rule comprehension_total) (simp add: np_min_Min ne)
  have tmax: "comprehension np_max psrs = Inr (map (\<lambda>p. Max (set p)) psrs)"
    by (rule comprehension_total) (simp add: np_max_Max ne)
  have mne: "map (\<lambda>p. Min (set p)) psrs \<noteq> []" "map (\<lambda>p. Max (set p)) psrs \<noteq> []"
    using assms(1) by simp_all
  have span: "Tspan psrs = Inr (Max (set (concat psrs)) - Min (set (concat psrs)))"
    unfolding Tspan_def tmin tmax
    by (simp add: np_min_Min[OF mne(1)] np_max_Max[OF mne(2)]
        Min_of_Mins[OF assms(1) ne] Max_of_Maxs[OF assms(1) ne] del: set_map set_concat)
  have nonneg: "Min (set (concat psrs)) \<le> Max (set (concat psrs))"
    using cne by (intro Min_le Max_in) simp_all
  have each: "Tspan_single p = Inr (Max (set p) - Min (set p))
       \<and> Max (set p) - Min (set p) \<le> Max (set (concat psrs)) - Min (set (concat psrs))"
    if p: "p \<in> set psrs" for p
  proof -
    have pne: "p \<noteq> []" using ne p .
    have sub: "set p \<subseteq> set (concat psrs)" using p by auto
    have "Max (set p) \<le> Max (set (concat psrs))"
      using pne sub by (intro Max_mono) simp_all
    moreover have "Min (set (concat psrs)) \<le> Min (set p)"
      using pne sub by (intro Min_antimono) simp_all
    ultimately show ?thesis
      by (simp add: Tspan_single_def np_min_Min[OF pne] np_max_Max[OF pne])
  qed
  show ?thesis using span nonneg each by simp
qed

theorem Tspan_global_witness:
  "Tspan [[3, 1, 2], [5, 4]] = Inr 4 \<and> Tspan_single [5, 4] = Inr 1"
  using Tspan_global [of "[[3, 1, 2], [5, 4]]"] by (simp add: Tspan_def Tspan_single_def)

section \<open>Properties: column lookup\<close>

lemma py_index_first:
  "x \<in> set xs \<Longrightarrow>
     \<exists>i. py_index xs x = Inr i \<and> i < length xs \<and> xs ! i = x \<and> (\<forall>j<i. xs ! j \<noteq> x)"
proof (induction xs)
  case Nil
  then show ?case by simp
next
  case (Cons y ys)
  show ?case
  proof (cases "y = x")
    case True
    then show ?thesis by simp
  next
    case False
    with Cons.prems have "x \<in> set ys" by simp
    from Cons.IH[OF this] obtain i where
      i: "py_index ys x = Inr i" "i < length ys" "ys ! i = x" "\<forall>j<i. ys ! j \<noteq> x"
      by blast
    have "\<forall>j<Suc i. (y # ys) ! j \<noteq> x"
    proof (intro allI impI)
      fix j assume "j < Suc i"
      then show "(y # ys) ! j \<noteq> x" using False i(4) by (cases j) auto
    qed
    with False i show ?thesis by simp
  qed
qed

lemma chain_rows_length:
  "length samples = length appended \<Longrightarrow> length (chain_rows samples appended) = length samples"
  by (simp add: chain_rows_def)

lemma chain_rows_column:
  assumes "length samples = length appended"
    and "\<forall>s \<in> set samples. ind < length s"
  shows "map (\<lambda>row. row ! ind) (drop b (chain_rows samples appended))
       = map (\<lambda>s. s ! ind) (drop b samples)"
proof -
  have "map (\<lambda>row. row ! ind) (chain_rows samples appended) = map (\<lambda>s. s ! ind) samples"
    using assms
  proof (induction samples appended rule: list_induct2)
    case Nil
    then show ?case by (simp add: chain_rows_def)
  next
    case (Cons s ss a as)
    then show ?case by (simp add: chain_rows_def nth_append)
  qed
  then show ?thesis by (simp only: drop_map [symmetric])
qed

lemma chain_rows_wide:
  assumes "length samples = length appended"
    and "\<forall>s \<in> set samples. ind < length s"
  shows "list_all (\<lambda>row. ind < length row) (chain_rows samples appended)"
  using assms
proof (induction samples appended rule: list_induct2)
  case Nil
  then show ?case by (simp add: chain_rows_def)
next
  case (Cons s ss a as)
  then show ?case by (simp add: chain_rows_def)
qed

text \<open>
  Claim C1, as amended. For a chain file of at least two rows, whose rows are the
  parameter samples in \<^verbatim>\<open>pta.param_names\<close> order followed by the sampler's appended
  fields, the index \<^verbatim>\<open>list(pta.param_names).index(name)\<close> of a parameter \<open>name\<close> is the
  column of that parameter: the name at that position is \<open>name\<close> (its first occurrence),
  and \<^verbatim>\<open>chain[burn:, ind]\<close> is the sequence of that parameter's samples after the
  burn-in.
\<close>

theorem param_column_lookup:
  assumes "name \<in> set param_names"
    and "length samples = length appended"
    and "2 \<le> length samples"
    and "\<forall>s \<in> set samples. length s = length param_names"
    and "\<forall>a \<in> set appended. length a = k"
    and "0 < k"
  shows "\<exists>ind chain.
           py_index param_names name = Inr ind
         \<and> ind < length param_names
         \<and> param_names ! ind = name
         \<and> (\<forall>j<ind. param_names ! j \<noteq> name)
         \<and> loadtxt_rows (chain_rows samples appended) = Inr chain
         \<and> burn_in chain = Inr (length samples div 4)
         \<and> column_from (length samples div 4) ind chain
             = Inr (Arr1 (map (\<lambda>s. s ! ind) (drop (length samples div 4) samples)))
         \<and> param_samples param_names name (chain_rows samples appended)
             = Inr (Arr1 (map (\<lambda>s. s ! ind) (drop (length samples div 4) samples)))"
proof -
  let ?rows = "chain_rows samples appended"
  let ?b = "length samples div 4"
  from py_index_first[OF assms(1)] obtain ind where
    ind: "py_index param_names name = Inr ind" "ind < length param_names"
      "param_names ! ind = name" "\<forall>j<ind. param_names ! j \<noteq> name"
    by blast
  have wide: "\<forall>s \<in> set samples. ind < length s" using assms(4) ind(2) by simp
  have len: "length ?rows = length samples" by (rule chain_rows_length[OF assms(2)])
  have two: "2 \<le> length ?rows" using assms(3) len by simp
  have cols: "\<forall>row \<in> set ?rows. length row = length param_names + k"
  proof
    fix row assume "row \<in> set ?rows"
    then obtain s a where sa: "(s, a) \<in> set (zip samples appended)" "row = s @ a"
      by (auto simp: chain_rows_def)
    then have "s \<in> set samples" "a \<in> set appended" by (auto dest: set_zip_leftD set_zip_rightD)
    with assms(4,5) sa(2) show "length row = length param_names + k" by simp
  qed
  have pos: "0 < length param_names + k" using assms(6) by simp
  have ne1: "length param_names + k \<noteq> 1" using assms(6) ind(2) by simp
  have load: "loadtxt_rows ?rows = Inr (Arr2 ?rows)"
    using loadtxt_matrix[OF two pos cols] ne1 by simp
  have burn: "burn_in (Arr2 ?rows) = Inr ?b"
    by (simp only: burn_in_def shape0.simps sum.case burn_value len)
  have col: "column_from ?b ind (Arr2 ?rows) = Inr (Arr1 (map (\<lambda>s. s ! ind) (drop ?b samples)))"
    unfolding column_from_def
    using chain_rows_wide[OF assms(2) wide] chain_rows_column[OF assms(2) wide] by simp
  have all: "param_samples param_names name ?rows
               = Inr (Arr1 (map (\<lambda>s. s ! ind) (drop ?b samples)))"
    by (simp only: param_samples_def load burn ind(1) col sum.case)
  from ind load burn col all show ?thesis by blast
qed

theorem param_column_lookup_witness:
  "param_samples [''efac'', ''log10_A'', ''gamma''] ''log10_A''
     (chain_rows [[1, 10, 100], [2, 20, 200], [3, 30, 300], [4, 40, 400 :: int]]
                 [[7, 7, 7, 7], [8, 8, 8, 8], [9, 9, 9, 9], [6, 6, 6, 6]])
   = Inr (Arr1 [20, 30, 40])"
  using param_column_lookup [of "''log10_A''" "[''efac'', ''log10_A'', ''gamma'']"
      "[[1, 10, 100], [2, 20, 200], [3, 30, 300], [4, 40, 400 :: int]]"
      "[[7, 7, 7, 7], [8, 8, 8, 8], [9, 9, 9, 9], [6, 6, 6, 6]]" 4]
  by (simp add: param_samples_def loadtxt_rows_def burn_in_def column_from_def chain_rows_def)

text \<open>
  Claim C1 as stated fails on a chain of one row: the file is loaded as an array of one
  axis, on which \<^verbatim>\<open>chain[burn:, ind]\<close> raises \<open>IndexError\<close> although \<open>ind\<close> is the
  position of the parameter. The same holds for a chain file with no row.
\<close>

theorem param_column_one_row:
  "py_index [''efac'', ''log10_A'', ''gamma''] ''log10_A'' = Inr 1
   \<and> loadtxt_rows (chain_rows [[1, 10, 100 :: int]] [[7, 7, 7, 7]])
     = Inr (Arr1 [1, 10, 100, 7, 7, 7, 7])
   \<and> param_samples [''efac'', ''log10_A'', ''gamma''] ''log10_A''
       (chain_rows [[1, 10, 100 :: int]] [[7, 7, 7, 7]]) = Inl IndexError
   \<and> param_samples [''efac'', ''log10_A'', ''gamma''] ''log10_A''
       (chain_rows ([] :: int list list) []) = Inl IndexError"
  by (simp add: param_samples_def loadtxt_rows_def burn_in_def column_from_def chain_rows_def)

section \<open>Properties: noise dictionaries\<close>

lemma update_all_last:
  assumes "\<forall>nf \<in> set nfs. nf \<in> dom json"
  shows "\<exists>p. update_all json nfs m = Inr p
           \<and> dom p = dom m \<union> (\<Union>nf \<in> set nfs. dom (the (json nf)))
           \<and> (\<forall>k. (\<forall>j<length nfs. k \<notin> dom (the (json (nfs ! j)))) \<longrightarrow> p k = m k)
           \<and> (\<forall>i<length nfs. \<forall>k.
                  k \<in> dom (the (json (nfs ! i)))
                  \<and> (\<forall>j. i < j \<and> j < length nfs \<longrightarrow> k \<notin> dom (the (json (nfs ! j))))
                  \<longrightarrow> p k = the (json (nfs ! i)) k)"
  using assms
proof (induction nfs arbitrary: m)
  case Nil
  then show ?case by simp
next
  case (Cons nf rest)
  from Cons.prems obtain d where d: "json nf = Some d" by auto
  from Cons.prems have rest: "\<forall>nf \<in> set rest. nf \<in> dom json" by simp
  from Cons.IH[OF rest, of "m ++ d"] obtain p where
    p: "update_all json rest (m ++ d) = Inr p"
      "dom p = dom (m ++ d) \<union> (\<Union>nf \<in> set rest. dom (the (json nf)))"
      "\<forall>k. (\<forall>j<length rest. k \<notin> dom (the (json (rest ! j)))) \<longrightarrow> p k = (m ++ d) k"
      "\<forall>i<length rest. \<forall>k.
          k \<in> dom (the (json (rest ! i)))
          \<and> (\<forall>j. i < j \<and> j < length rest \<longrightarrow> k \<notin> dom (the (json (rest ! j))))
          \<longrightarrow> p k = the (json (rest ! i)) k"
    by blast
  have run: "update_all json (nf # rest) m = Inr p" using d p(1) by simp
  have doms: "dom p = dom m \<union> (\<Union>nf \<in> set (nf # rest). dom (the (json nf)))"
    using p(2) d by auto
  have untouched: "p k = m k" if "\<forall>j<length (nf # rest). k \<notin> dom (the (json ((nf # rest) ! j)))" for k
  proof -
    from that have "k \<notin> dom (the (json ((nf # rest) ! 0)))" by blast
    then have k0: "k \<notin> dom d" using d by simp
    have "\<forall>j<length rest. k \<notin> dom (the (json (rest ! j)))"
    proof (intro allI impI)
      fix j assume "j < length rest"
      then have "Suc j < length (nf # rest)" by simp
      with that have "k \<notin> dom (the (json ((nf # rest) ! Suc j)))" by blast
      then show "k \<notin> dom (the (json (rest ! j)))" by simp
    qed
    with p(3) have "p k = (m ++ d) k" by blast
    with k0 show ?thesis by (simp add: map_add_dom_app_simps)
  qed
  have last: "p k = the (json ((nf # rest) ! i)) k"
    if i: "i < length (nf # rest)"
      and k: "k \<in> dom (the (json ((nf # rest) ! i)))"
      and later: "\<forall>j. i < j \<and> j < length (nf # rest) \<longrightarrow> k \<notin> dom (the (json ((nf # rest) ! j)))"
    for i k
  proof (cases i)
    case 0
    have kd: "k \<in> dom d" using k 0 d by simp
    have "\<forall>j<length rest. k \<notin> dom (the (json (rest ! j)))"
    proof (intro allI impI)
      fix j assume "j < length rest"
      then have "i < Suc j \<and> Suc j < length (nf # rest)" using 0 by simp
      with later have "k \<notin> dom (the (json ((nf # rest) ! Suc j)))" by blast
      then show "k \<notin> dom (the (json (rest ! j)))" by simp
    qed
    with p(3) have "p k = (m ++ d) k" by blast
    with kd 0 d show ?thesis by (simp add: map_add_dom_app_simps)
  next
    case (Suc i')
    have i': "i' < length rest" using i Suc by simp
    have k': "k \<in> dom (the (json (rest ! i')))" using k Suc by simp
    have "\<forall>j. i' < j \<and> j < length rest \<longrightarrow> k \<notin> dom (the (json (rest ! j)))"
    proof (intro allI impI)
      fix j assume "i' < j \<and> j < length rest"
      then have "i < Suc j \<and> Suc j < length (nf # rest)" using Suc by simp
      with later have "k \<notin> dom (the (json ((nf # rest) ! Suc j)))" by blast
      then show "k \<notin> dom (the (json (rest ! j)))" by simp
    qed
    with p(4) i' k' have "p k = the (json (rest ! i')) k" by blast
    then show ?thesis using Suc by simp
  qed
  show ?case using run doms untouched last by blast
qed

text \<open>
  Claim C5. After the loading loop over the JSON noise files in sorted file name order
  (each of them a JSON dictionary that can be read), \<open>params\<close> has every key of every
  file, and a key is bound to the value of the last file, in that order, that defines
  it.
\<close>

theorem load_noise_last_wins:
  assumes "\<forall>nf \<in> set (noisefiles listing). nf \<in> dom json"
  shows "\<exists>params. load_noise listing json = Inr params
           \<and> sorted (noisefiles listing)
           \<and> dom params = (\<Union>nf \<in> set (noisefiles listing). dom (the (json nf)))
           \<and> (\<forall>i<length (noisefiles listing). \<forall>k.
                  k \<in> dom (the (json (noisefiles listing ! i)))
                  \<and> (\<forall>j. i < j \<and> j < length (noisefiles listing)
                         \<longrightarrow> k \<notin> dom (the (json (noisefiles listing ! j))))
                  \<longrightarrow> params k = the (json (noisefiles listing ! i)) k)"
proof -
  from update_all_last[OF assms, of Map.empty] obtain p where
    p: "update_all json (noisefiles listing) Map.empty = Inr p"
      "dom p = dom (Map.empty :: string \<rightharpoonup> 'a) \<union> (\<Union>nf \<in> set (noisefiles listing). dom (the (json nf)))"
      "\<forall>i<length (noisefiles listing). \<forall>k.
          k \<in> dom (the (json (noisefiles listing ! i)))
          \<and> (\<forall>j. i < j \<and> j < length (noisefiles listing)
                 \<longrightarrow> k \<notin> dom (the (json (noisefiles listing ! j))))
          \<longrightarrow> p k = the (json (noisefiles listing ! i)) k"
    by blast
  have s: "sorted (noisefiles listing)" by (simp add: noisefiles_def)
  from p(2) have d: "dom p = (\<Union>nf \<in> set (noisefiles listing). dom (the (json nf)))" by simp
  show ?thesis unfolding load_noise_def using p(1) s d p(3) by blast
qed

theorem load_noise_last_wins_witness:
  "\<exists>params. load_noise [''b.json'', ''a.json'', ''readme.txt'']
       [''./dataset1/noise/a.json'' \<mapsto> [''J1_efac'' \<mapsto> 1, ''J1_equad'' \<mapsto> 5],
        ''./dataset1/noise/b.json'' \<mapsto> [''J1_efac'' \<mapsto> 2 :: int]] = Inr params
     \<and> params ''J1_efac'' = Some 2 \<and> params ''J1_equad'' = Some 5"
  using load_noise_last_wins [of "[''b.json'', ''a.json'', ''readme.txt'']"
      "[''./dataset1/noise/a.json'' \<mapsto> [''J1_efac'' \<mapsto> 1, ''J1_equad'' \<mapsto> 5],
        ''./dataset1/noise/b.json'' \<mapsto> [''J1_efac'' \<mapsto> 2 :: int]]"]
  by (simp add: load_noise_def noisefiles_def glob_star_def star_match_def suffix_to_prefix)

section \<open>Properties: reading the output of readfile\<close>

lemma split_on_unfold:
  "split_on c xs =
     takeWhile (\<lambda>x. x \<noteq> c) xs #
       (case dropWhile (\<lambda>x. x \<noteq> c) xs of [] \<Rightarrow> [] | y # r \<Rightarrow> split_on c r)"
proof (induction xs)
  case Nil
  then show ?case by simp
next
  case (Cons x xs)
  show ?case
  proof (cases "x = c")
    case True
    then show ?thesis by simp
  next
    case False
    then show ?thesis by (subst split_on.simps) (simp add: Cons.IH)
  qed
qed

lemma item_split_on_none:
  assumes "c \<notin> set l"
  shows "item (split_on c l) 1 = Inl IndexError"
proof -
  from assms have d: "dropWhile (\<lambda>x. x \<noteq> c) l = []" by (auto simp: dropWhile_eq_Nil_conv)
  have "split_on c l = [takeWhile (\<lambda>x. x \<noteq> c) l]"
    by (subst split_on_unfold) (simp only: d list.case)
  then show ?thesis by (simp add: item_def)
qed

lemma item_split_on_some:
  assumes "c \<in> set l"
  shows "item (split_on c l) 1
           = Inr (takeWhile (\<lambda>x. x \<noteq> c) (tl (dropWhile (\<lambda>x. x \<noteq> c) l)))"
proof -
  from assms have "dropWhile (\<lambda>x. x \<noteq> c) l \<noteq> []" by simp
  then obtain y r where yr: "dropWhile (\<lambda>x. x \<noteq> c) l = y # r" by (cases "dropWhile (\<lambda>x. x \<noteq> c) l") auto
  have "split_on c l = takeWhile (\<lambda>x. x \<noteq> c) l # split_on c r"
    by (subst split_on_unfold) (simp add: yr)
  also have "split_on c r = takeWhile (\<lambda>x. x \<noteq> c) r #
       (case dropWhile (\<lambda>x. x \<noteq> c) r of [] \<Rightarrow> [] | y # r \<Rightarrow> split_on c r)"
    by (rule split_on_unfold)
  finally show ?thesis by (simp add: item_def yr)
qed

lemma readfile_loop_prints:
  assumes "\<forall>l \<in> set ls. contains ''Central freq'' l \<longrightarrow>
             CHR ''='' \<in> set l \<and> to_float (py_strip (after_first_eq l)) \<noteq> None"
  shows "readfile_loop to_float fmt ls printed =
           (printed @ map (\<lambda>l. ''Frequency='' @ fmt (the (to_float (py_strip (after_first_eq l)))))
                        (filter (contains ''Central freq'') ls), None)"
  using assms
proof (induction ls arbitrary: printed)
  case Nil
  then show ?case by simp
next
  case (Cons res rest)
  from Cons.prems have rest: "\<forall>l \<in> set rest. contains ''Central freq'' l \<longrightarrow>
             CHR ''='' \<in> set l \<and> to_float (py_strip (after_first_eq l)) \<noteq> None"
    by simp
  show ?case
  proof (cases "contains ''Central freq'' res")
    case False
    then show ?thesis using Cons.IH[OF rest] by simp
  next
    case True
    with Cons.prems have eq: "CHR ''='' \<in> set res"
      and fl: "to_float (py_strip (after_first_eq res)) \<noteq> None" by simp_all
    from fl obtain freq where freq: "to_float (py_strip (after_first_eq res)) = Some freq" by blast
    have it: "item (split_on CHR ''='' res) 1 = Inr (after_first_eq res)"
      using item_split_on_some[OF eq] by (simp add: after_first_eq_def)
    have "readfile_loop to_float fmt (res # rest) printed
            = readfile_loop to_float fmt rest (printed @ [''Frequency='' @ fmt freq])"
      using True by (simp only: readfile_loop.simps if_True it sum.case freq option.case)
    then show ?thesis using True freq Cons.IH[OF rest] by simp
  qed
qed

text \<open>
  Claim C2, as amended. For every stdout byte string in which every line that contains
  \<^verbatim>\<open>b"Central freq"\<close> has an \<open>=\<close> and has, between its first \<open>=\<close> and its second \<open>=\<close>
  (or the end of the line), a text that \<^verbatim>\<open>float\<close> accepts once stripped, the loop prints,
  for each such line in order and for no other line, \<open>Frequency=\<close> followed by the
  \<^verbatim>\<open>%0.1f\<close> rendering of that float, and raises nothing.
\<close>

theorem readfile_cell_prints:
  assumes "\<forall>l \<in> set (split_on (CHR 0x0A) (stdout p)). contains ''Central freq'' l \<longrightarrow>
             CHR ''='' \<in> set l \<and> to_float (py_strip (after_first_eq l)) \<noteq> None"
  shows "readfile_cell to_float fmt p =
           (map (\<lambda>l. ''Frequency='' @ fmt (the (to_float (py_strip (after_first_eq l)))))
              (filter (contains ''Central freq'') (split_on (CHR 0x0A) (stdout p))), None)"
  using readfile_loop_prints[OF assms, of fmt "[]"]
  by (simp add: readfile_cell_def communicate_def)

theorem readfile_cell_prints_witness:
  "readfile_cell [''1352.5'' \<mapsto> ()] (\<lambda>freq. ''1352.5'')
     \<lparr>stdout = ''Number of channels = 128'' @ [CHR 0x0A] @ ''Central freq (MHz) = 1352.5 '' @ [CHR 0x0A],
      stderr = ''''\<rparr>
   = ([''Frequency=1352.5''], None)"
  using readfile_cell_prints [of
      "\<lparr>stdout = ''Number of channels = 128'' @ [CHR 0x0A] @ ''Central freq (MHz) = 1352.5 '' @ [CHR 0x0A],
        stderr = ''''\<rparr>"
      "[''1352.5'' \<mapsto> ()]" "\<lambda>freq. ''1352.5''"]
  by (simp add: after_first_eq_def py_strip_def is_space_def)

text \<open>
  Claim C2 as stated fails: a line that contains \<^verbatim>\<open>b"Central freq"\<close> and no \<open>=\<close> ends the
  loop with \<open>IndexError\<close> before anything is printed for it, and one whose text after
  the \<open>=\<close> is no number ends it with the \<open>ValueError\<close> of \<^verbatim>\<open>float\<close>. Neither run calls
  \<open>fmt\<close>; \<open>to_float\<close> is \<^verbatim>\<open>float\<close> on the one text \<open>1352.5\<close>.
\<close>

theorem readfile_cell_raises:
  "readfile_cell [''1352.5'' \<mapsto> ()] (\<lambda>freq. ''1352.5'')
     \<lparr>stdout = ''Central freq (MHz) 1352.5'', stderr = ''''\<rparr> = ([], Some IndexError)
   \<and> readfile_cell [''1352.5'' \<mapsto> ()] (\<lambda>freq. ''1352.5'')
     \<lparr>stdout = ''Central freq (MHz) = n/a'', stderr = ''''\<rparr> = ([], Some ValueError)"
  by (simp add: readfile_cell_def communicate_def item_def py_strip_def is_space_def)

text \<open>
  Claim C3. The output of the cell depends on the stdout of the process only: two
  executions with the same stdout and any stderr print the same lines (and raise the
  same exception, if any).
\<close>

theorem readfile_cell_ignores_stderr:
  assumes "stdout p = stdout q"
  shows "readfile_cell to_float fmt p = readfile_cell to_float fmt q"
  using assms by (simp add: readfile_cell_def communicate_def)

theorem readfile_cell_ignores_stderr_witness:
  "readfile_cell [''1352.5'' \<mapsto> ()] (\<lambda>freq. ''1352.5'')
     \<lparr>stdout = ''Central freq (MHz) = 1352.5'', stderr = ''''\<rparr>
   = readfile_cell [''1352.5'' \<mapsto> ()] (\<lambda>freq. ''1352.5'')
     \<lparr>stdout = ''Central freq (MHz) = 1352.5'', stderr = ''readfile: warning''\<rparr>"
  using readfile_cell_ignores_stderr [of
      "\<lparr>stdout = ''Central freq (MHz) = 1352.5'', stderr = ''''\<rparr>"
      "\<lparr>stdout = ''Central freq (MHz) = 1352.5'', stderr = ''readfile: warning''\<rparr>"
      "[''1352.5'' \<mapsto> ()]" "\<lambda>freq. ''1352.5''"]
  by simp

section \<open>Properties: chain files are sampled before they are loaded\<close>

lemma sampler_after_snoc: "sampler_after (pre @ [x]) = bind_sampler x (sampler_after pre)"
  by (simp add: sampler_after_def)

lemma scan_step:
  assumes "scan (x # r) s w"
  shows "scan r (bind_sampler x s)
           (case x of Sample \<Rightarrow> (case s of None \<Rightarrow> w | Some d \<Rightarrow> chain_file_of d # w) | _ \<Rightarrow> w)"
  using assms by (cases x) (simp_all add: bind_sampler_def)

lemma scan_sound:
  assumes "scan suf (sampler_after pre) w"
    and "\<forall>f \<in> set w. \<exists>j<length pre. pre ! j = Sample \<and>
           (\<exists>d. sampler_after (take j pre) = Some d \<and> f = chain_file_of d)"
  shows "\<forall>i<length suf.
           case suf ! i of
             LoadTxt p \<Rightarrow>
               is_chain_file p \<longrightarrow>
                 (\<exists>j<length pre + i. (pre @ suf) ! j = Sample \<and>
                    (case sampler_after (take j (pre @ suf)) of
                       None \<Rightarrow> False
                     | Some d \<Rightarrow> same_file (chain_file_of d) p))
           | _ \<Rightarrow> True"
  using assms
proof (induction suf arbitrary: pre w)
  case Nil
  then show ?case by simp
next
  case (Cons x r)
  let ?w = "case x of Sample \<Rightarrow> (case sampler_after pre of None \<Rightarrow> w | Some d \<Rightarrow> chain_file_of d # w)
            | _ \<Rightarrow> w"
  have step: "scan r (sampler_after (pre @ [x])) ?w"
    using scan_step[OF Cons.prems(1)] by (simp add: sampler_after_snoc)
  have inv: "\<forall>f \<in> set ?w. \<exists>j<length (pre @ [x]). (pre @ [x]) ! j = Sample \<and>
           (\<exists>d. sampler_after (take j (pre @ [x])) = Some d \<and> f = chain_file_of d)"
  proof
    fix f assume f: "f \<in> set ?w"
    show "\<exists>j<length (pre @ [x]). (pre @ [x]) ! j = Sample \<and>
           (\<exists>d. sampler_after (take j (pre @ [x])) = Some d \<and> f = chain_file_of d)"
    proof (cases "f \<in> set w")
      case True
      with Cons.prems(2) obtain j d where
        j: "j < length pre" "pre ! j = Sample" "sampler_after (take j pre) = Some d" "f = chain_file_of d"
        by blast
      then have "j < length (pre @ [x]) \<and> (pre @ [x]) ! j = Sample
                 \<and> sampler_after (take j (pre @ [x])) = Some d \<and> f = chain_file_of d"
        by (simp add: nth_append)
      then show ?thesis by blast
    next
      case False
      with f obtain d where d: "x = Sample" "sampler_after pre = Some d" "f = chain_file_of d"
        by (cases x; cases "sampler_after pre") auto
      then have "length pre < length (pre @ [x]) \<and> (pre @ [x]) ! length pre = Sample
                 \<and> sampler_after (take (length pre) (pre @ [x])) = Some d \<and> f = chain_file_of d"
        by simp
      then show ?thesis by blast
    qed
  qed
  note IH = Cons.IH[OF step inv]
  show ?case
  proof (intro allI impI)
    fix i assume i: "i < length (x # r)"
    show "case (x # r) ! i of
            LoadTxt p \<Rightarrow>
              is_chain_file p \<longrightarrow>
                (\<exists>j<length pre + i. (pre @ x # r) ! j = Sample \<and>
                   (case sampler_after (take j (pre @ x # r)) of
                      None \<Rightarrow> False
                    | Some d \<Rightarrow> same_file (chain_file_of d) p))
          | _ \<Rightarrow> True"
    proof (cases i)
      case 0
      show ?thesis
      proof (cases x)
        case (LoadTxt p)
        have "\<exists>j<length pre. (pre @ x # r) ! j = Sample \<and>
                 (case sampler_after (take j (pre @ x # r)) of
                    None \<Rightarrow> False
                  | Some d \<Rightarrow> same_file (chain_file_of d) p)" if "is_chain_file p"
        proof -
          from Cons.prems(1) LoadTxt that obtain f where f: "f \<in> set w" "same_file f p" by auto
          with Cons.prems(2) obtain j d where
            j: "j < length pre" "pre ! j = Sample" "sampler_after (take j pre) = Some d" "f = chain_file_of d"
            by blast
          then have "j < length pre \<and> (pre @ x # r) ! j = Sample \<and>
                 (case sampler_after (take j (pre @ x # r)) of
                    None \<Rightarrow> False
                  | Some d \<Rightarrow> same_file (chain_file_of d) p)"
            using f(2) by (simp add: nth_append)
          then show ?thesis by blast
        qed
        then show ?thesis using 0 LoadTxt by simp
      qed (simp_all add: 0)
    next
      case (Suc i')
      with i have i': "i' < length r" by simp
      from IH i' have
        "case r ! i' of
           LoadTxt p \<Rightarrow>
             is_chain_file p \<longrightarrow>
               (\<exists>j<length (pre @ [x]) + i'. ((pre @ [x]) @ r) ! j = Sample \<and>
                  (case sampler_after (take j ((pre @ [x]) @ r)) of
                     None \<Rightarrow> False
                   | Some d \<Rightarrow> same_file (chain_file_of d) p))
         | _ \<Rightarrow> True"
        by blast
      then show ?thesis using Suc by (simp cong: stmt.case_cong)
    qed
  qed
qed

lemma scan_read_after_sample: "scan prog None [] \<Longrightarrow> read_after_sample prog"
  using scan_sound[of prog "[]" "[]"]
  by (simp add: read_after_sample_def sampler_after_def cong: stmt.case_cong)

lemma concat_replicate_Nil: "concat (replicate n []) = []"
  by (induction n) simp_all

lemma squeeze_double_slash:
  "squeeze (xs @ CHR ''/'' # CHR ''/'' # r) = squeeze (xs @ CHR ''/'' # r)"
  by (induction xs rule: squeeze.induct) simp_all

lemma is_chain_file_append:
  "is_chain_file (d @ ''/chain_1.txt'')"
  by (simp add: is_chain_file_def)

lemma not_chain_file_pars:
  "\<not> is_chain_file (d @ ''/pars.txt'')"
  by (simp add: is_chain_file_def)

text \<open>
  Claim C7. In every notebook, read as the sequential program of its code cells from
  top to bottom, every \<^verbatim>\<open>np.loadtxt\<close> of a \<^verbatim>\<open>chain_1.txt\<close> comes strictly after a
  \<^verbatim>\<open>sampler.sample\<close> call of a sampler that writes to the same output directory.
\<close>

theorem chain_loaded_after_sample:
  "read_after_sample (program stochastic_gwb_analysis)
   \<and> read_after_sample (program (single_pulsar_noise psr_name))
   \<and> read_after_sample (program cw_exercises)
   \<and> read_after_sample (program faking_it_at_the_command_line)
   \<and> read_after_sample (program importing_modules)"
proof -
  have a: "read_after_sample (program stochastic_gwb_analysis)"
    by (rule scan_read_after_sample)
      (simp add: program_def stochastic_gwb_analysis_def concat_replicate_Nil
        chain_file_of_def same_file_def)
  have b: "read_after_sample (program (single_pulsar_noise psr_name))"
  proof (rule scan_read_after_sample)
    have 1: "is_chain_file ((''./chains/noise_run_'' @ psr_name) @ ''/chain_1.txt'')"
      by (rule is_chain_file_append)
    have 2: "is_chain_file ((''./chains/noise_run_'' @ psr_name @ ''/'') @ ''/chain_1.txt'')"
      by (rule is_chain_file_append)
    have 3: "\<not> is_chain_file ((''./chains/noise_run_'' @ psr_name @ ''/'') @ ''/pars.txt'')"
      by (rule not_chain_file_pars)
    have 4: "squeeze ((''./chains/noise_run_'' @ psr_name) @ CHR ''/'' # CHR ''/'' # ''chain_1.txt'')
           = squeeze ((''./chains/noise_run_'' @ psr_name) @ CHR ''/'' # ''chain_1.txt'')"
      by (rule squeeze_double_slash)
    show "scan (program (single_pulsar_noise psr_name)) None []"
      using 1 2 3 4
      by (simp add: program_def single_pulsar_noise_def concat_replicate_Nil
          chain_file_of_def same_file_def Let_def)
  qed
  have c: "read_after_sample (program cw_exercises)"
    by (rule scan_read_after_sample)
      (simp add: program_def cw_exercises_def concat_replicate_Nil
        chain_file_of_def same_file_def is_chain_file_def)
  have d: "read_after_sample (program faking_it_at_the_command_line)"
    by (rule scan_read_after_sample)
      (simp add: program_def faking_it_at_the_command_line_def concat_replicate_Nil)
  have e: "read_after_sample (program importing_modules)"
    by (rule scan_read_after_sample)
      (simp add: program_def importing_modules_def concat_replicate_Nil)
  from a b c d e show ?thesis by blast
qed

theorem chain_loaded_after_sample_witness:
  "read_after_sample (program stochastic_gwb_analysis)
   \<and> read_after_sample (program (single_pulsar_noise ''J0613-0200''))
   \<and> read_after_sample (program cw_exercises)"
  using chain_loaded_after_sample [of "''J0613-0200''"] by simp

section \<open>Properties: parameter names on disk\<close>

lemma split_on_no_sep: "c \<notin> set l \<Longrightarrow> split_on c l = [l]"
proof -
  assume "c \<notin> set l"
  then have all: "\<forall>x \<in> set l. x \<noteq> c" by auto
  then have d: "dropWhile (\<lambda>x. x \<noteq> c) l = []" by (simp add: dropWhile_eq_Nil_conv)
  from all have t: "takeWhile (\<lambda>x. x \<noteq> c) l = l" by (simp add: takeWhile_eq_all_conv)
  show ?thesis by (subst split_on_unfold) (simp only: d t list.case)
qed

lemma split_on_sep:
  assumes "c \<notin> set s"
  shows "split_on c (s @ c # rest) = s # split_on c rest"
proof -
  from assms have all: "\<forall>x \<in> set s. x \<noteq> c" by auto
  have t: "takeWhile (\<lambda>x. x \<noteq> c) (s @ c # rest) = s"
    using all by (simp add: takeWhile_append2)
  have d: "dropWhile (\<lambda>x. x \<noteq> c) (s @ c # rest) = c # rest"
    using all by (simp add: dropWhile_append2)
  show ?thesis by (subst split_on_unfold) (simp only: d t list.case)
qed

lemma split_on_lines:
  assumes "\<forall>n \<in> set names. c \<notin> set n"
  shows "split_on c (concat (map (\<lambda>s. s @ [c]) names)) = names @ [[]]"
  using assms
proof (induction names)
  case Nil
  then show ?case by simp
next
  case (Cons n names)
  then have "c \<notin> set n" by simp
  from split_on_sep[OF this, of "concat (map (\<lambda>s. s @ [c]) names)"] Cons show ?case by simp
qed

lemma np_str_id:
  assumes "n \<noteq> []" and "last n \<noteq> CHR 0x00"
  shows "np_str n = n"
proof -
  from assms(1) obtain xs x where n: "n = xs @ [x]" by (cases n rule: rev_cases) auto
  with assms(2) have "x \<noteq> CHR 0x00" by simp
  then show ?thesis by (simp add: np_str_def n)
qed

lemma py_words_name:
  assumes "n \<noteq> []" and "\<forall>c \<in> set n. \<not> is_text_space c"
  shows "py_words n = [n]"
proof -
  have m: "map (\<lambda>c. if is_text_space c then CHR '' '' else c) n = n"
    using assms(2) by (intro map_idI) simp
  have "CHR '' '' \<notin> set n" using assms(2) by (auto simp: is_text_space_def)
  then show ?thesis using assms(1) by (simp add: py_words_def m split_on_no_sep)
qed

lemma py_words_empty: "py_words [] = []"
  by (simp add: py_words_def)

lemma text_lines_savetxt:
  assumes "\<forall>n \<in> set names. n \<noteq> [] \<and> (\<forall>c \<in> set n. \<not> is_text_space c) \<and> last n \<noteq> CHR 0x00"
  shows "text_lines (savetxt names) = names @ [[]]"
proof -
  have s: "savetxt names = concat (map (\<lambda>s. s @ [CHR 0x0A]) names)"
    unfolding savetxt_def using assms by (intro arg_cong[where f = concat] map_cong) (simp_all add: np_str_id)
  have nocr: "\<forall>c \<in> set (concat (map (\<lambda>s. s @ [CHR 0x0A]) names)). c \<noteq> CHR 0x0D"
    using assms by (auto simp: is_text_space_def)
  have m: "map (\<lambda>c. if c = CHR 0x0D then CHR 0x0A else c) (concat (map (\<lambda>s. s @ [CHR 0x0A]) names))
         = concat (map (\<lambda>s. s @ [CHR 0x0A]) names)"
    using nocr by (intro map_idI) simp
  have nonl: "\<forall>n \<in> set names. CHR 0x0A \<notin> set n"
    using assms by (auto simp: is_text_space_def)
  show ?thesis unfolding text_lines_def s m by (rule split_on_lines[OF nonl])
qed

lemma rows_of_names:
  assumes "\<forall>n \<in> set names. n \<noteq> [] \<and> (\<forall>c \<in> set n. \<not> is_text_space c \<and> c \<noteq> CHR ''#'')"
  shows "filter (\<lambda>r. r \<noteq> []) (map (\<lambda>l. py_words (takeWhile (\<lambda>c. c \<noteq> CHR ''#'') l)) (names @ [[]]))
       = map (\<lambda>n. [n]) names"
  using assms
proof (induction names)
  case Nil
  then show ?case by (simp add: py_words_empty)
next
  case (Cons n names)
  then have n: "n \<noteq> []" "\<forall>c \<in> set n. \<not> is_text_space c" "\<forall>c \<in> set n. c \<noteq> CHR ''#''" by simp_all
  have t: "takeWhile (\<lambda>c. c \<noteq> CHR ''#'') n = n" using n(3) by (simp add: takeWhile_eq_all_conv)
  show ?case using Cons by (simp add: t py_words_name[OF n(1,2)])
qed

text \<open>
  Claim C4, as amended. For every list of parameter names that does not consist of
  exactly one name, and in which each name is non-empty, contains no whitespace and no
  \<open>#\<close>, and does not end with a NUL character, writing the list with \<^verbatim>\<open>np.savetxt\<close> and
  reading it back with \<^verbatim>\<open>list(np.loadtxt(..., dtype='str'))\<close> gives the same names in
  the same order.
\<close>

theorem params_round_trip_same:
  assumes "length param_names \<noteq> 1"
    and "\<forall>n \<in> set param_names.
           n \<noteq> [] \<and> (\<forall>c \<in> set n. \<not> is_text_space c \<and> c \<noteq> CHR ''#'') \<and> last n \<noteq> CHR 0x00"
  shows "params_round_trip param_names = Inr (map Str param_names)"
proof -
  have a: "\<forall>n \<in> set param_names. n \<noteq> [] \<and> (\<forall>c \<in> set n. \<not> is_text_space c) \<and> last n \<noteq> CHR 0x00"
    using assms(2) by blast
  have b: "\<forall>n \<in> set param_names. n \<noteq> [] \<and> (\<forall>c \<in> set n. \<not> is_text_space c \<and> c \<noteq> CHR ''#'')"
    using assms(2) by blast
  have rows: "filter (\<lambda>r. r \<noteq> [])
                (map (\<lambda>l. py_words (takeWhile (\<lambda>c. c \<noteq> CHR ''#'') l)) (text_lines (savetxt param_names)))
              = map (\<lambda>n. [n]) param_names"
    by (simp only: text_lines_savetxt[OF a] rows_of_names[OF b])
  have stored: "map (map np_str) (map (\<lambda>n. [n]) param_names) = map (\<lambda>n. [n]) param_names"
    using a by (intro map_idI) (auto simp: np_str_id)
  show ?thesis
  proof (cases param_names)
    case Nil
    then show ?thesis
      by (simp add: params_round_trip_def loadtxt_def savetxt_def text_lines_def py_words_def)
  next
    case (Cons n1 rest)
    with assms(1) obtain n2 rest' where rest: "rest = n2 # rest'" by (cases rest) auto
    have ones: "list_all (\<lambda>r. length r = 1) (map (\<lambda>n. [n]) param_names)"
      by (simp add: list_all_iff)
    have sq: "squeeze_array (map (\<lambda>n. [n]) param_names) = Arr1 param_names"
      using ones by (simp add: Cons rest list_all_iff)
    have "loadtxt (savetxt param_names) = Inr (Arr1 param_names)"
      unfolding loadtxt_def rows Let_def stored sq
      by (simp add: Cons list_all_iff)
    then show ?thesis by (simp add: params_round_trip_def)
  qed
qed

theorem params_round_trip_same_witness:
  "params_round_trip [''cos_gwtheta'', ''gwphi'', ''log10_mc'']
     = Inr [Str ''cos_gwtheta'', Str ''gwphi'', Str ''log10_mc'']"
  using params_round_trip_same [of "[''cos_gwtheta'', ''gwphi'', ''log10_mc'']"]
  by (simp add: is_text_space_def)

text \<open>
  Claim C4 as stated fails, on lists of non-empty names without whitespace: a name is
  cut at a \<open>#\<close>, which starts a comment for \<^verbatim>\<open>loadtxt\<close>; a list of one name comes back
  as an array of no axes, on which \<^verbatim>\<open>list\<close> raises \<open>TypeError\<close>; and a NUL at the end of a
  name is lost in the array \<^verbatim>\<open>savetxt\<close> writes from.
\<close>

theorem params_round_trip_differs:
  "params_round_trip [''gwphi'', ''J1713#0_efac''] = Inr [Str ''gwphi'', Str ''J1713'']
   \<and> params_round_trip [''gwphi''] = Inl TypeError
   \<and> params_round_trip [''gwphi'', ''psi'' @ [CHR 0x00]] = Inr [Str ''gwphi'', Str ''psi'']"
  by (simp add: params_round_trip_def loadtxt_def savetxt_def text_lines_def py_words_def
      np_str_def is_text_space_def)

section \<open>Properties: timing files of the pulsars\<close>

lemma psr_key_path:
  assumes "CHR ''/'' \<notin> set f"
  shows "psr_key (''./dataset1/'' @ f) = hd (split_on CHR ''.'' f)"
proof -
  have a: "CHR ''/'' \<notin> set ''.''" and b: "CHR ''/'' \<notin> set ''dataset1''" by simp_all
  have "split_on CHR ''/'' (''.'' @ CHR ''/'' # (''dataset1'' @ CHR ''/'' # f))
          = ''.'' # ''dataset1'' # split_on CHR ''/'' f"
    by (simp only: split_on_sep[OF a] split_on_sep[OF b])
  then have "split_on CHR ''/'' (''./dataset1/'' @ f) = [''.'', ''dataset1'', f]"
    using split_on_no_sep[OF assms] by simp
  then show ?thesis by (simp add: psr_key_def)
qed

lemma key_of_name:
  assumes "CHR ''.'' \<notin> set n"
  shows "hd (split_on CHR ''.'' (n @ CHR ''.'' # e)) = n"
  by (simp add: split_on_sep[OF assms])

lemma append_le_cancel: "(p @ x \<le> p @ y) = (x \<le> (y :: string))"
  by (induction p) simp_all

lemma dot_order:
  assumes "CHR ''.'' \<notin> set n1" and "CHR ''.'' \<notin> set n2"
  shows "(n1 @ CHR ''.'' # e \<le> n2 @ CHR ''.'' # e) = (n1 @ [CHR ''.''] \<le> n2 @ [CHR ''.''])"
  using assms
proof (induction n1 arbitrary: n2)
  case Nil
  then show ?case by (cases n2) auto
next
  case (Cons a n1)
  show ?case
  proof (cases n2)
    case Nil
    with Cons.prems show ?thesis by auto
  next
    case (Cons b n2')
    with Cons.prems Cons.IH[of n2'] show ?thesis by auto
  qed
qed

lemma encode_all_ascii:
  assumes "\<forall>x \<in> set xs. is_ascii x"
  shows "comprehension encode_ascii xs = Inr xs"
  using assms by (induction xs) (simp_all add: encode_ascii_def)

lemma selected_files:
  fixes e :: string
  defines "ext \<equiv> CHR ''.'' # e"
  assumes names: "\<forall>n \<in> set psrlist. CHR ''.'' \<notin> set n \<and> is_ascii n"
    and dir: "distinct listing" "\<forall>f \<in> set listing. CHR ''/'' \<notin> set f"
    and present: "\<forall>n \<in> set psrlist. n @ ext \<in> set listing"
    and others: "\<forall>f \<in> set listing. suffix ext f \<and> hd (split_on CHR ''.'' f) \<in> set psrlist
                   \<longrightarrow> (\<exists>n \<in> set psrlist. f = n @ ext)"
    and ascii: "is_ascii e"
  shows "select_psrs psrlist (sort (glob_star ''./dataset1/'' ext listing))
       = Inr (map (\<lambda>n. ''./dataset1/'' @ n @ ext)
               (sort_key (\<lambda>n. n @ ''.'') (remdups (filter (\<lambda>n. n \<noteq> []) psrlist))))"
proof -
  let ?pre = "''./dataset1/''"
  let ?L = "filter (\<lambda>x. psr_key x \<in> set psrlist) (sort (glob_star ?pre ext listing))"
  let ?Ns = "sort_key (\<lambda>n. n @ ''.'') (remdups (filter (\<lambda>n. n \<noteq> []) psrlist))"
  let ?R = "map (\<lambda>n. ?pre @ n @ ext) ?Ns"
  have Ns_set: "set ?Ns = {n \<in> set psrlist. n \<noteq> []}" by auto
  have sorted_L: "sorted ?L" by (intro sorted_wrt_filter) simp
  have "distinct (glob_star ?pre ext listing)"
    unfolding glob_star_def using dir(1) by (simp add: distinct_map inj_on_def)
  then have distinct_L: "distinct ?L" by simp
  have "sorted (map (\<lambda>n. n @ ''.'') ?Ns)" by (rule sorted_sort_key)
  then have "sorted_wrt (\<lambda>x y. x @ ''.'' \<le> y @ ''.'') ?Ns" by (simp only: sorted_map)
  then have "sorted_wrt (\<lambda>x y. ?pre @ x @ ext \<le> ?pre @ y @ ext) ?Ns"
  proof (rule sorted_wrt_mono_rel[rotated])
    fix x y assume x: "x \<in> set ?Ns" and y: "y \<in> set ?Ns" and le: "x @ ''.'' \<le> y @ ''.''"
    from x y names have "CHR ''.'' \<notin> set x" "CHR ''.'' \<notin> set y" by auto
    from dot_order[OF this, of e] le have "x @ ext \<le> y @ ext" by (simp add: ext_def)
    then show "?pre @ x @ ext \<le> ?pre @ y @ ext" by (simp only: append_le_cancel)
  qed
  then have sorted_R: "sorted ?R" by (simp only: sorted_map)
  have distinct_R: "distinct ?R" by (simp add: distinct_map inj_on_def)
  have set_eq: "set ?L = set ?R"
  proof (intro set_eqI iffI)
    fix x assume "x \<in> set ?L"
    then obtain f where f: "f \<in> set listing" "x = ?pre @ f" "star_match ext f"
      "psr_key (?pre @ f) \<in> set psrlist"
      by (auto simp: glob_star_def)
    from f(1) dir(2) have noslash: "CHR ''/'' \<notin> set f" by blast
    from f(4) have key: "hd (split_on CHR ''.'' f) \<in> set psrlist"
      unfolding psr_key_path[OF noslash] .
    from f(3) have suf: "suffix ext f" and vis: "\<not> prefix ''.'' f" by (simp_all add: star_match_def)
    from others f(1) suf key obtain n where n: "n \<in> set psrlist" "f = n @ ext" by blast
    have "n \<noteq> []" using vis n(2) by (auto simp: ext_def)
    with n f(2) show "x \<in> set ?R" by (simp only: set_map Ns_set) blast
  next
    fix x assume "x \<in> set ?R"
    then obtain n where n: "n \<in> set psrlist" "n \<noteq> []" "x = ?pre @ n @ ext"
      by (simp only: set_map Ns_set) blast
    from n(1) names have nodot: "CHR ''.'' \<notin> set n" by blast
    from n(1) present have inl: "n @ ext \<in> set listing" by blast
    with dir(2) have noslash: "CHR ''/'' \<notin> set (n @ ext)" by blast
    have vis: "\<not> prefix ''.'' (n @ ext)" using n(2) nodot by (cases n) auto
    have sm: "star_match ext (n @ ext)" using vis by (simp add: star_match_def suffix_def)
    have "psr_key (?pre @ n @ ext) = hd (split_on CHR ''.'' (n @ ext))"
      by (rule psr_key_path[OF noslash])
    also have "\<dots> = n" unfolding ext_def by (rule key_of_name[OF nodot])
    finally have "psr_key (?pre @ n @ ext) = n" .
    with n(1) have key: "psr_key (?pre @ n @ ext) \<in> set psrlist" by simp
    have "?pre @ n @ ext \<in> set (glob_star ?pre ext listing)"
      unfolding glob_star_def using inl sm by auto
    with key n(3) show "x \<in> set ?L" by simp
  qed
  have LR: "?L = ?R"
    by (rule sorted_distinct_set_unique[OF sorted_L distinct_L sorted_R distinct_R set_eq])
  have "\<forall>x \<in> set ?R. is_ascii x"
  proof
    fix x assume "x \<in> set ?R"
    then obtain n where n: "n \<in> set psrlist" "x = ?pre @ n @ ext"
      by (simp only: set_map Ns_set) blast
    from n(1) names have "is_ascii n" by blast
    with ascii n(2) show "is_ascii x" by (simp add: ext_def is_ascii_def)
  qed
  then have "comprehension encode_ascii ?R = Inr ?R" by (rule encode_all_ascii)
  then show ?thesis unfolding select_psrs_def LR .
qed

text \<open>
  Claim C6, as amended. Let the pulsar names be ASCII and without a dot, let the data
  directory hold \<open>name.par\<close> and \<open>name.tim\<close> for every name of \<open>psrlist\<close>, and let no other
  \<open>.par\<close> or \<open>.tim\<close> file of the directory have a name whose part before the first dot
  is in \<open>psrlist\<close>. Then \<open>parfiles\<close> and \<open>timfiles\<close> have the same length, and for every
  index the two files given to the \<open>Pulsar\<close> constructor are the \<open>.par\<close> and the \<open>.tim\<close>
  file of one pulsar of \<open>psrlist\<close>. (The listing of a directory has no name twice and no
  name with a slash.)
\<close>

theorem pulsar_inputs_paired:
  assumes names: "\<forall>n \<in> set psrlist. CHR ''.'' \<notin> set n \<and> is_ascii n"
    and dir: "distinct listing" "\<forall>f \<in> set listing. CHR ''/'' \<notin> set f"
    and present: "\<forall>n \<in> set psrlist. n @ ''.par'' \<in> set listing \<and> n @ ''.tim'' \<in> set listing"
    and others: "\<forall>f \<in> set listing.
                   (suffix ''.par'' f \<or> suffix ''.tim'' f) \<and> psr_key f \<in> set psrlist
                   \<longrightarrow> (\<exists>n \<in> set psrlist. f = n @ ''.par'' \<or> f = n @ ''.tim'')"
  shows "\<exists>ps ts. parfiles psrlist listing = Inr ps
           \<and> timfiles psrlist listing = Inr ts
           \<and> pulsar_inputs psrlist listing = Inr (zip ps ts)
           \<and> length ps = length ts
           \<and> set ps = (\<lambda>n. ''./dataset1/'' @ n @ ''.par'') ` {n \<in> set psrlist. n \<noteq> []}
           \<and> (\<forall>i<length ps. \<exists>n \<in> set psrlist.
                  ps ! i = ''./dataset1/'' @ n @ ''.par'' \<and> ts ! i = ''./dataset1/'' @ n @ ''.tim'')"
proof -
  let ?Ns = "sort_key (\<lambda>n. n @ ''.'') (remdups (filter (\<lambda>n. n \<noteq> []) psrlist))"
  let ?ps = "map (\<lambda>n. ''./dataset1/'' @ n @ ''.par'') ?Ns"
  let ?ts = "map (\<lambda>n. ''./dataset1/'' @ n @ ''.tim'') ?Ns"
  have key: "psr_key f = hd (split_on CHR ''.'' f)" if "f \<in> set listing" for f
  proof -
    from that dir(2) have "CHR ''/'' \<notin> set f" by blast
    then show ?thesis by (simp add: psr_key_def split_on_no_sep)
  qed
  have par_present: "\<forall>n \<in> set psrlist. n @ CHR ''.'' # ''par'' \<in> set listing"
    and tim_present: "\<forall>n \<in> set psrlist. n @ CHR ''.'' # ''tim'' \<in> set listing"
    using present by simp_all
  have par_others: "\<forall>f \<in> set listing. suffix (CHR ''.'' # ''par'') f \<and> hd (split_on CHR ''.'' f) \<in> set psrlist
                   \<longrightarrow> (\<exists>n \<in> set psrlist. f = n @ CHR ''.'' # ''par'')"
  proof (intro ballI impI)
    fix f assume f: "f \<in> set listing"
      and h: "suffix (CHR ''.'' # ''par'') f \<and> hd (split_on CHR ''.'' f) \<in> set psrlist"
    with others key[OF f] obtain n where n: "n \<in> set psrlist" "f = n @ ''.par'' \<or> f = n @ ''.tim''"
      by auto
    from h have "suffix ''.par'' f" by simp
    then have "f \<noteq> n @ ''.tim''" by (auto simp: suffix_def)
    with n show "\<exists>n \<in> set psrlist. f = n @ CHR ''.'' # ''par''" by auto
  qed
  have tim_others: "\<forall>f \<in> set listing. suffix (CHR ''.'' # ''tim'') f \<and> hd (split_on CHR ''.'' f) \<in> set psrlist
                   \<longrightarrow> (\<exists>n \<in> set psrlist. f = n @ CHR ''.'' # ''tim'')"
  proof (intro ballI impI)
    fix f assume f: "f \<in> set listing"
      and h: "suffix (CHR ''.'' # ''tim'') f \<and> hd (split_on CHR ''.'' f) \<in> set psrlist"
    with others key[OF f] obtain n where n: "n \<in> set psrlist" "f = n @ ''.par'' \<or> f = n @ ''.tim''"
      by auto
    from h have "suffix ''.tim'' f" by simp
    then have "f \<noteq> n @ ''.par''" by (auto simp: suffix_def)
    with n show "\<exists>n \<in> set psrlist. f = n @ CHR ''.'' # ''tim''" by auto
  qed
  have ps: "parfiles psrlist listing = Inr ?ps"
    using selected_files[OF names dir par_present par_others, simplified is_ascii_def]
    by (simp add: parfiles_def is_ascii_def)
  have ts: "timfiles psrlist listing = Inr ?ts"
    using selected_files[OF names dir tim_present tim_others, simplified is_ascii_def]
    by (simp add: timfiles_def is_ascii_def)
  have inputs: "pulsar_inputs psrlist listing = Inr (zip ?ps ?ts)"
    by (simp only: pulsar_inputs_def ps ts sum.case)
  have len: "length ?ps = length ?ts" by simp
  have all: "set ?ps = (\<lambda>n. ''./dataset1/'' @ n @ ''.par'') ` {n \<in> set psrlist. n \<noteq> []}"
    by auto
  have pairs: "\<forall>i<length ?ps. \<exists>n \<in> set psrlist.
                  ?ps ! i = ''./dataset1/'' @ n @ ''.par'' \<and> ?ts ! i = ''./dataset1/'' @ n @ ''.tim''"
  proof (intro allI impI)
    fix i assume "i < length ?ps"
    then have i: "i < length ?Ns" by simp
    then have "?Ns ! i \<in> set ?Ns" by (rule nth_mem)
    then have "?Ns ! i \<in> set psrlist" by simp
    moreover have "?ps ! i = ''./dataset1/'' @ ?Ns ! i @ ''.par''" using i by (simp only: nth_map)
    moreover have "?ts ! i = ''./dataset1/'' @ ?Ns ! i @ ''.tim''" using i by (simp only: nth_map)
    ultimately show "\<exists>n \<in> set psrlist.
                  ?ps ! i = ''./dataset1/'' @ n @ ''.par'' \<and> ?ts ! i = ''./dataset1/'' @ n @ ''.tim''"
      by blast
  qed
  from ps ts inputs len all pairs show ?thesis by blast
qed

theorem pulsar_inputs_paired_witness:
  "pulsar_inputs [''J1713+0747'', ''B1855+09'']
     [''J1713+0747.tim'', ''B1855+09.par'', ''README'', ''J1713+0747.par'', ''B1855+09.tim'']
   = Inr [(''./dataset1/B1855+09.par'', ''./dataset1/B1855+09.tim''),
          (''./dataset1/J1713+0747.par'', ''./dataset1/J1713+0747.tim'')]"
  using pulsar_inputs_paired [of "[''J1713+0747'', ''B1855+09'']"
      "[''J1713+0747.tim'', ''B1855+09.par'', ''README'', ''J1713+0747.par'', ''B1855+09.tim'']"]
  by (simp add: pulsar_inputs_def parfiles_def timfiles_def select_psrs_def glob_star_def
      star_match_def suffix_to_prefix psr_key_def encode_ascii_def is_ascii_def)

text \<open>
  Claim C6 as stated fails. With one more \<open>.par\<close> file whose name starts with a pulsar
  name and a dot, \<open>parfiles\<close> is longer than \<open>timfiles\<close> and the constructor gets the
  \<open>.par\<close> file of one pulsar with the \<open>.tim\<close> file of another; with a pulsar name that
  has a dot, the two sorted lists pair the files of different pulsars although the
  directory holds nothing but the files of the claim; and with a name beyond ASCII the
  cell raises before there is any list.
\<close>

theorem pulsar_inputs_mismatch:
  "parfiles [''B1855+09'', ''J1713+0747'']
     [''B1855+09.par'', ''B1855+09.old.par'', ''B1855+09.tim'', ''J1713+0747.par'', ''J1713+0747.tim'']
   = Inr [''./dataset1/B1855+09.old.par'', ''./dataset1/B1855+09.par'', ''./dataset1/J1713+0747.par'']
   \<and> timfiles [''B1855+09'', ''J1713+0747'']
     [''B1855+09.par'', ''B1855+09.old.par'', ''B1855+09.tim'', ''J1713+0747.par'', ''J1713+0747.tim'']
   = Inr [''./dataset1/B1855+09.tim'', ''./dataset1/J1713+0747.tim'']
   \<and> pulsar_inputs [''B1855+09'', ''J1713+0747'']
     [''B1855+09.par'', ''B1855+09.old.par'', ''B1855+09.tim'', ''J1713+0747.par'', ''J1713+0747.tim'']
   = Inr [(''./dataset1/B1855+09.old.par'', ''./dataset1/B1855+09.tim''),
          (''./dataset1/B1855+09.par'', ''./dataset1/J1713+0747.tim'')]
   \<and> pulsar_inputs [''J0437'', ''J0437.s'']
     [''J0437.par'', ''J0437.tim'', ''J0437.s.par'', ''J0437.s.tim'']
   = Inr [(''./dataset1/J0437.par'', ''./dataset1/J0437.s.tim''),
          (''./dataset1/J0437.s.par'', ''./dataset1/J0437.tim'')]
   \<and> pulsar_inputs [''J0437'' @ [CHR 0xE9]]
     [''J0437'' @ [CHR 0xE9] @ ''.par'', ''J0437'' @ [CHR 0xE9] @ ''.tim'']
   = Inl UnicodeError"
  by (simp add: pulsar_inputs_def parfiles_def timfiles_def select_psrs_def glob_star_def
      star_match_def suffix_to_prefix psr_key_def encode_ascii_def is_ascii_def)

end
